theory Spec2Isabelle
  imports Main
begin

section \<open>String operations of the platform\<close>

text \<open>
  The server compares and rewrites paths with a handful of JavaScript string methods and
  with \<open>path.basename\<close> of Node. They are written out here on \<open>string\<close>; a character of
  the model stands for one code unit of the JavaScript string.
\<close>

definition slash :: char where
  "slash = CHR ''/''"

definition backslash :: char where
  "backslash = CHR 0x5C"

definition underscore :: char where
  "underscore = CHR ''_''"

definition startsWith :: "string \<Rightarrow> string \<Rightarrow> bool" where
  \<comment> \<open>\<open>s.startsWith(p)\<close>\<close>
  "startsWith s p \<longleftrightarrow> take (length p) s = p"

definition endsWith :: "string \<Rightarrow> string \<Rightarrow> bool" where
  \<comment> \<open>\<open>s.endsWith(p)\<close>: compares the last \<open>p.length\<close> code units, false when \<open>p\<close> is longer\<close>
  "endsWith s p \<longleftrightarrow> length p \<le> length s \<and> drop (length s - length p) s = p"

definition is_separator :: "char \<Rightarrow> bool" where
  \<comment> \<open>the character class \<open>[\/\\]\<close>\<close>
  "is_separator c \<longleftrightarrow> c = slash \<or> c = backslash"

definition is_ascii_letter :: "char \<Rightarrow> bool" where
  \<comment> \<open>the character class \<open>[a-zA-Z]\<close>\<close>
  "is_ascii_letter c \<longleftrightarrow>
     (let n = (of_char c :: nat) in (97 \<le> n \<and> n \<le> 122) \<or> (65 \<le> n \<and> n \<le> 90))"

fun match_drive :: "string \<Rightarrow> bool" where
  \<comment> \<open>\<open>s.match(/^[a-zA-Z]:/)\<close> is not null\<close>
  "match_drive (c # d # _) = (is_ascii_letter c \<and> d = CHR '':'')"
| "match_drive _ = False"

definition strip_trailing_separator :: "string \<Rightarrow> string" where
  \<comment> \<open>\<open>s.replace(/[\/\\]$/, "")\<close>: the pattern matches once, at the end of the input\<close>
  "strip_trailing_separator s = (if s \<noteq> [] \<and> is_separator (last s) then butlast s else s)"

definition backslashes_to_slashes :: "string \<Rightarrow> string" where
  \<comment> \<open>\<open>s.replace(/\\/g, "/")\<close>\<close>
  "backslashes_to_slashes s = map (\<lambda>c. if c = backslash then slash else c) s"

definition separators_to_underscores :: "string \<Rightarrow> string" where
  \<comment> \<open>\<open>s.replace(/[\/\\]/g, "_")\<close>\<close>
  "separators_to_underscores s = map (\<lambda>c. if is_separator c then underscore else c) s"

definition basename :: "string \<Rightarrow> string" where
  \<comment> \<open>\<open>path.basename(p)\<close> of Node, POSIX flavour: scanning from the end, the trailing
      slashes are skipped and the characters up to the next slash are the result\<close>
  "basename p = rev (takeWhile (\<lambda>c. c \<noteq> slash) (dropWhile (\<lambda>c. c = slash) (rev p)))"


section \<open>Logical request path and loose matching\<close>

definition filePath_of :: "string \<Rightarrow> string \<Rightarrow> string" where
  \<comment> \<open>the first statement of \<open>fetchFileFromAgent\<close>\<close>
  "filePath_of dir filename =
     (if startsWith filename ''/'' \<or> startsWith filename ''storage'' \<or> match_drive filename
      then filename
      else (let cleanDir = strip_trailing_separator dir in cleanDir @ ''/'' @ filename))"

definition loose_match :: "string \<Rightarrow> string \<Rightarrow> bool" where
  \<comment> \<open>the constant \<open>match\<close> of the waiter's handler, for the requested \<open>filePath\<close> and the
      arrived \<open>fileData.path\<close>\<close>
  "loose_match filePath arrived =
     (let reqNorm = backslashes_to_slashes filePath;
          resNorm = backslashes_to_slashes arrived
      in reqNorm = resNorm \<or>
         endsWith resNorm reqNorm \<or>
         endsWith reqNorm resNorm \<or>
         basename reqNorm = basename resNorm)"

definition match_without_exact :: "string \<Rightarrow> string \<Rightarrow> bool" where
  \<comment> \<open>the comparison predicate: the three rules after exact equality, and only these\<close>
  "match_without_exact filePath arrived =
     (let reqNorm = backslashes_to_slashes filePath;
          resNorm = backslashes_to_slashes arrived
      in endsWith resNorm reqNorm \<or>
         endsWith reqNorm resNorm \<or>
         basename reqNorm = basename resNorm)"

section \<open>State of the server\<close>

text \<open>
  The process is single threaded: every callback runs to completion before the next one
  starts. The state below holds the module-level variables of the server
  (\<open>agentSocket\<close>, \<open>tempDirFiles\<close>, the listeners of \<open>fileEvents\<close>), the parts of the
  runtime the handlers work with (pending timers, settled promises, the clock, the files
  under the upload directory), and a trace of what the process has done, in the order it
  was done: the commands sent to the agent, the lines written to the console, the
  registrations of listeners and the settlements of promises.

  \<^item> \<open>tempDirFiles\<close> is taken as a finite map of its own properties.
  \<^item> A message of the agent is described by what \<open>JSON.parse\<close> makes of it: a syntax
    error, \<open>null\<close>, a value that is not an object, or an object whose five fields of
    interest are each absent or of the type the protocol gives them.
  \<^item> Promises, timers and handler closures are identified by numbers drawn from one
    counter.
  \<^item> A staged file is kept with the base64 text whose decoding the server writes.
  \<^item> The clock does not go back.
  \<^item> \<open>POST /upload-files\<close> with its variable \<open>agentFiles\<close>, the static pages and the
    start of the process are left out: nothing below reads what they write.
\<close>

datatype js_error = SyntaxError | TypeError | WebSocket_not_open | ENOENT | IO_error

datatype ready_state = CONNECTING | OPEN | CLOSING | CLOSED

datatype command = Request_dir string | Request_file string

datatype line =
    Agent_connected
  | Agent_disconnected
  | Received_file string string
  | Received_files string nat
  | Sent_request_dir string
  | Requesting_file string
  | Matched_response string string
  | Error_in_file_view js_error
  | Starting_zip nat string
  | Fetching_for_zip string
  | Failed_to_fetch string js_error

datatype action =
    Send command
  | Console line
  | Listen nat
  | Settle nat "string option"

datatype timer_kind = Fetch_timeout | Sleep

record timer =
  due :: nat
  kind :: timer_kind

record waiter =
  wid :: nat
  filePath :: string

record file_data =
  path :: string
  savePath :: string

record ws_data =
  data_type :: "string option"
  data_path :: "string option"
  data_content :: "string option"
  data_dir :: "string option"
  data_files :: "string list option"

datatype ws_message = Not_JSON | JSON_null | JSON_not_object | JSON_object ws_data

record platform =
  join_upload_dir :: "string \<Rightarrow> string"
  writeFileSync_fails :: "string \<Rightarrow> bool"
  send_throws_unless_open :: bool

text \<open>
  The three fields of \<open>platform\<close> stand for what the libraries decide:
  \<open>join_upload_dir n\<close> is \<open>path.join(UPLOAD_DIR, n)\<close>; \<open>writeFileSync_fails l\<close>
  says that \<open>fs.writeFileSync\<close> throws at location \<open>l\<close> (a directory, for one);
  \<open>send_throws_unless_open\<close> says whether \<open>send\<close> of the socket library throws on a socket
  that is closing or closed, or drops the data silently.
\<close>

record server =
  agentSocket :: "ready_state option"
  tempDirFiles :: "string \<rightharpoonup> string list"
  fileEvents :: "waiter list"
  timers :: "nat \<rightharpoonup> timer"
  promises :: "nat \<rightharpoonup> string option"
  uploads :: "string \<rightharpoonup> string"
  clock :: nat
  next_id :: nat
  trace :: "action list"
  crashed :: "js_error option"

definition initial :: server where
  "initial = \<lparr>agentSocket = None, tempDirFiles = Map.empty, fileEvents = [],
     timers = Map.empty, promises = Map.empty, uploads = Map.empty, clock = 0,
     next_id = 0, trace = [], crashed = None\<rparr>"

definition emit_action :: "action \<Rightarrow> server \<Rightarrow> server" where
  "emit_action a st = st\<lparr>trace := trace st @ [a]\<rparr>"

definition console_log :: "line \<Rightarrow> server \<Rightarrow> server" where
  "console_log l st = emit_action (Console l) st"

definition no_listing :: "server \<Rightarrow> string \<Rightarrow> bool" where
  \<comment> \<open>\<open>!tempDirFiles[dir] || tempDirFiles[dir].length === 0\<close>\<close>
  "no_listing st dir \<longleftrightarrow>
     (case tempDirFiles st dir of None \<Rightarrow> True | Some files \<Rightarrow> length files = 0)"

definition socket_open :: "server \<Rightarrow> bool" where
  \<comment> \<open>the negation of \<open>!agentSocket || agentSocket.readyState !== WebSocket.OPEN\<close>\<close>
  "socket_open st \<longleftrightarrow> (case agentSocket st of None \<Rightarrow> False | Some r \<Rightarrow> r = OPEN)"

definition agentSocket_send :: "platform \<Rightarrow> command \<Rightarrow> server \<Rightarrow> js_error + server" where
  \<comment> \<open>\<open>agentSocket.send(JSON.stringify(...))\<close>: reading \<open>send\<close> of \<open>null\<close> is a TypeError\<close>
  "agentSocket_send pf c st =
     (case agentSocket st of
        None \<Rightarrow> Inl TypeError
      | Some OPEN \<Rightarrow> Inr (emit_action (Send c) st)
      | Some CONNECTING \<Rightarrow> Inl WebSocket_not_open
      | Some _ \<Rightarrow> if send_throws_unless_open pf then Inl WebSocket_not_open else Inr st)"

subsection \<open>Promises, timers and the listeners of \<open>fileEvents\<close>\<close>

definition resolve :: "nat \<Rightarrow> string option \<Rightarrow> server \<Rightarrow> server" where
  \<comment> \<open>a promise is settled once; a later \<open>resolve\<close> does nothing\<close>
  "resolve p v st =
     (case promises st p of
        None \<Rightarrow> emit_action (Settle p v) (st\<lparr>promises := (promises st)(p \<mapsto> v)\<rparr>)
      | Some _ \<Rightarrow> st)"

definition clearTimeout :: "nat \<Rightarrow> server \<Rightarrow> server" where
  "clearTimeout t st = st\<lparr>timers := (timers st)(t := None)\<rparr>"

definition setTimeout :: "nat \<Rightarrow> timer_kind \<Rightarrow> nat \<Rightarrow> server \<Rightarrow> server" where
  "setTimeout t k ms st = st\<lparr>timers := (timers st)(t \<mapsto> \<lparr>due = clock st + ms, kind = k\<rparr>)\<rparr>"

definition off :: "nat \<Rightarrow> server \<Rightarrow> server" where
  \<comment> \<open>\<open>fileEvents.off('file', handler)\<close>; a handler closure is registered once, so its
      number names at most one listener\<close>
  "off p st = st\<lparr>fileEvents := filter (\<lambda>w. wid w \<noteq> p) (fileEvents st)\<rparr>"

definition on :: "waiter \<Rightarrow> server \<Rightarrow> server" where
  \<comment> \<open>\<open>fileEvents.on('file', handler)\<close>\<close>
  "on w st = emit_action (Listen (wid w)) (st\<lparr>fileEvents := fileEvents st @ [w]\<rparr>)"

definition handler :: "waiter \<Rightarrow> file_data \<Rightarrow> server \<Rightarrow> server" where
  "handler w fileData st =
     (if loose_match (filePath w) (path fileData)
      then resolve (wid w) (Some (savePath fileData))
             (off (wid w)
               (clearTimeout (wid w)
                 (console_log (Matched_response (path fileData) (filePath w)) st)))
      else st)"

definition emit_file :: "file_data \<Rightarrow> server \<Rightarrow> server" where
  \<comment> \<open>\<open>fileEvents.emit('file', fileData)\<close>: the listeners registered when the event is
      emitted are called in the order of their registration\<close>
  "emit_file fileData st = fold (\<lambda>w. handler w fileData) (fileEvents st) st"

definition fetchFileFromAgent ::
    "platform \<Rightarrow> string \<Rightarrow> string \<Rightarrow> server \<Rightarrow> (js_error + nat) \<times> server" where
  \<comment> \<open>up to the \<open>return\<close> of the promise: either the exception thrown by \<open>send\<close> or the
      number of the promise returned, with the state left behind\<close>
  "fetchFileFromAgent pf dir filename st =
     (let fp = filePath_of dir filename;
          st1 = console_log (Requesting_file fp) st
      in case agentSocket_send pf (Request_file fp) st1 of
           Inl e \<Rightarrow> (Inl e, st1)
         | Inr st2 \<Rightarrow>
             (let p = next_id st2;
                  st3 = st2\<lparr>next_id := Suc p, promises := (promises st2)(p := None)\<rparr>;
                  st4 = setTimeout p Fetch_timeout 60000 st3;
                  st5 = on \<lparr>wid = p, filePath = fp\<rparr> st4
              in (Inr p, st5)))"

definition timer_fires :: "nat \<Rightarrow> server \<Rightarrow> server" where
  \<comment> \<open>the runtime calls the callback of timer \<open>t\<close>, if it is pending and due\<close>
  "timer_fires t st =
     (case timers st t of
        None \<Rightarrow> st
      | Some tm \<Rightarrow>
          if clock st < due tm then st
          else (let st1 = clearTimeout t st
                in case kind tm of
                     Fetch_timeout \<Rightarrow> resolve t None (off t st1)
                   | Sleep \<Rightarrow> resolve t None st1))"

subsection \<open>Messages of the agent\<close>

text \<open>
  The listener of \<open>"message"\<close> has no \<open>try\<close>: an exception raised in it leaves the
  listener. The functions below return the exception that left (if any) together with
  the state at that moment.
\<close>

definition fs_writeFileSync :: "platform \<Rightarrow> string \<Rightarrow> string \<Rightarrow> server \<Rightarrow> js_error + server" where
  "fs_writeFileSync pf location content st =
     (if writeFileSync_fails pf location then Inl IO_error
      else Inr (st\<lparr>uploads := (uploads st)(location \<mapsto> content)\<rparr>))"

definition fs_unlinkSync :: "string \<Rightarrow> server \<Rightarrow> js_error + server" where
  "fs_unlinkSync location st =
     (case uploads st location of
        None \<Rightarrow> Inl ENOENT
      | Some _ \<Rightarrow> Inr (st\<lparr>uploads := (uploads st)(location := None)\<rparr>))"

definition on_file :: "platform \<Rightarrow> ws_data \<Rightarrow> server \<Rightarrow> js_error option \<times> server" where
  \<comment> \<open>the body of \<open>if (data.type === "file")\<close>\<close>
  "on_file pf data st =
     (case data_path data of
        None \<Rightarrow> (Some TypeError, st)
      | Some p \<Rightarrow>
          (let safeName = separators_to_underscores p;
               sp = join_upload_dir pf safeName
           in case data_content data of
                None \<Rightarrow> (Some TypeError, st)
              | Some content \<Rightarrow>
                  (case fs_writeFileSync pf sp content st of
                     Inl e \<Rightarrow> (Some e, st)
                   | Inr st1 \<Rightarrow>
                       (None, emit_file \<lparr>path = p, savePath = sp\<rparr>
                                (console_log (Received_file safeName p) st1)))))"

definition dir_key :: "string option \<Rightarrow> string" where
  \<comment> \<open>the property key that \<open>tempDirFiles[dir]\<close> uses\<close>
  "dir_key d = (case d of None \<Rightarrow> ''undefined'' | Some k \<Rightarrow> k)"

definition on_dir_list :: "ws_data \<Rightarrow> server \<Rightarrow> js_error option \<times> server" where
  \<comment> \<open>the body of \<open>if (data.type === "dir_list")\<close>: the assignment comes before
      \<open>files.length\<close> is read\<close>
  "on_dir_list data st =
     (let dir = dir_key (data_dir data);
          files = data_files data;
          st1 = st\<lparr>tempDirFiles := (tempDirFiles st)(dir := files)\<rparr>
      in case files of
           None \<Rightarrow> (Some TypeError, st1)
         | Some fs \<Rightarrow> (None, console_log (Received_files dir (length fs)) st1))"

definition on_message :: "platform \<Rightarrow> ws_message \<Rightarrow> server \<Rightarrow> js_error option \<times> server" where
  "on_message pf message st =
     (case message of
        Not_JSON \<Rightarrow> (Some SyntaxError, st)
      | JSON_null \<Rightarrow> (Some TypeError, st)
      | JSON_not_object \<Rightarrow> (None, st)
      | JSON_object data \<Rightarrow>
          (case (if data_type data = Some ''file'' then on_file pf data st else (None, st)) of
             (Some e, st1) \<Rightarrow> (Some e, st1)
           | (None, st1) \<Rightarrow>
               if data_type data = Some ''dir_list'' then on_dir_list data st1 else (None, st1)))"

fun deliver :: "platform \<Rightarrow> ws_message list \<Rightarrow> server \<Rightarrow> server" where
  \<comment> \<open>the messages that one turn of the event loop hands to the listener; an exception
      that leaves the listener is caught nowhere and ends the process\<close>
  "deliver pf [] st = st"
| "deliver pf (m # ms) st =
     (case on_message pf m st of
        (Some e, st1) \<Rightarrow> st1\<lparr>crashed := Some e\<rparr>
      | (None, st1) \<Rightarrow> deliver pf ms st1)"

subsection \<open>Turns of the event loop\<close>

text \<open>
  What happens to the server between two steps of a request handler: the agent connects,
  starts closing or closes; messages arrive; time passes; a timer fires; another request
  running at the same time fetches a file, asks for a listing, goes to sleep or finishes
  sending a file. A turn that is not possible (a timer that is not pending or not due)
  changes nothing, and nothing happens in a process that has ended.
\<close>

definition sleep :: "nat \<Rightarrow> server \<Rightarrow> nat \<times> server" where
  \<comment> \<open>\<open>new Promise((r) => setTimeout(r, ms))\<close>\<close>
  "sleep ms st =
     (let t = next_id st;
          st1 = st\<lparr>next_id := Suc t, promises := (promises st)(t := None)\<rparr>
      in (t, setTimeout t Sleep ms st1))"

definition sendFile_callback :: "js_error option \<Rightarrow> string \<Rightarrow> server \<Rightarrow> js_error option \<times> server" where
  \<comment> \<open>the callback given to \<open>res.sendFile\<close>, called with the error of the transfer or
      without one; the result holds the exception that leaves the callback\<close>
  "sendFile_callback err sp st =
     (if err = None
      then (case fs_unlinkSync sp st of
              Inl e \<Rightarrow> (None, st)
            | Inr st1 \<Rightarrow> (None, st1))
      else (None, st))"

definition request_dir :: "platform \<Rightarrow> string \<Rightarrow> server \<Rightarrow> js_error + server" where
  \<comment> \<open>the two statements that ask the agent for a listing\<close>
  "request_dir pf dir st =
     (case agentSocket_send pf (Request_dir dir) st of
        Inl e \<Rightarrow> Inl e
      | Inr st1 \<Rightarrow> Inr (console_log (Sent_request_dir dir) st1))"

datatype event =
    Agent_connects
  | Agent_closing
  | Agent_closes
  | Agent_messages "ws_message list"
  | Time_passes nat
  | Timer_fires nat
  | Other_fetch string string
  | Other_request_dir string
  | Other_sleep
  | Other_sendFile_done "js_error option" string

definition turn :: "platform \<Rightarrow> event \<Rightarrow> server \<Rightarrow> server" where
  "turn pf e st =
     (case e of
        Agent_connects \<Rightarrow> (console_log Agent_connected st)\<lparr>agentSocket := Some OPEN\<rparr>
      | Agent_closing \<Rightarrow>
          (case agentSocket st of
             None \<Rightarrow> st
           | Some _ \<Rightarrow> st\<lparr>agentSocket := Some CLOSING\<rparr>)
      | Agent_closes \<Rightarrow> (console_log Agent_disconnected st)\<lparr>agentSocket := None\<rparr>
      | Agent_messages ms \<Rightarrow> deliver pf ms st
      | Time_passes n \<Rightarrow> st\<lparr>clock := clock st + n\<rparr>
      | Timer_fires t \<Rightarrow> timer_fires t st
      | Other_fetch dir filename \<Rightarrow> snd (fetchFileFromAgent pf dir filename st)
      | Other_request_dir dir \<Rightarrow>
          (if socket_open st
           then (case request_dir pf dir st of Inl e \<Rightarrow> st | Inr st1 \<Rightarrow> st1)
           else st)
      | Other_sleep \<Rightarrow> snd (sleep 100 st)
      | Other_sendFile_done err sp \<Rightarrow> snd (sendFile_callback err sp st))"

definition step :: "platform \<Rightarrow> event \<Rightarrow> server \<Rightarrow> server" where
  "step pf e st = (if crashed st = None then turn pf e st else st)"

definition run :: "platform \<Rightarrow> event list \<Rightarrow> server \<Rightarrow> server" where
  "run pf evs st = fold (step pf) evs st"

section \<open>Request handlers\<close>

text \<open>
  A handler of the HTTP layer is an \<open>async\<close> function: it runs until it awaits a
  promise, the event loop takes its turns, and the handler goes on in the turn that
  settles the promise. A handler is modelled as a function of the state it starts in and of
  the turns that the event loop takes from then on; it consumes turns while it waits. The
  result \<open>None\<close> says that the handler is still waiting when the given turns are used up.
\<close>

datatype response = Status nat | Json_files "string list" | SendFile string | Attachment string

fun await :: "platform \<Rightarrow> nat \<Rightarrow> server \<Rightarrow> event list \<Rightarrow> string option option \<times> server \<times> event list" where
  \<comment> \<open>\<open>await\<close> of promise \<open>p\<close>: the value it is settled with, the state in which the
      handler goes on, and the turns not yet taken\<close>
  "await pf p st [] = (if crashed st = None then promises st p else None, st, [])"
| "await pf p st (e # es) =
     (if crashed st = None \<and> promises st p \<noteq> None then (promises st p, st, e # es)
      else await pf p (step pf e st) es)"

subsection \<open>\<open>GET /files/:dir\<close>\<close>

definition files_response :: "server \<Rightarrow> string \<Rightarrow> response" where
  \<comment> \<open>the last five lines of the handler\<close>
  "files_response st dir =
     (case tempDirFiles st dir of
        None \<Rightarrow> Status 504
      | Some files \<Rightarrow> if length files = 0 then Status 504 else Json_files files)"

fun poll :: "platform \<Rightarrow> string \<Rightarrow> nat \<Rightarrow> nat \<Rightarrow> server \<Rightarrow> event list \<Rightarrow> response option \<times> server" where
  \<comment> \<open>the \<open>while\<close> loop, asleep on the promise \<open>t\<close> of its 100 ms timer\<close>
  "poll pf dir timeout t st [] = (None, st)"
| "poll pf dir timeout t st (e # es) =
     (let st1 = step pf e st
      in if crashed st1 \<noteq> None \<or> promises st1 t = None then poll pf dir timeout t st1 es
         else if no_listing st1 dir \<and> clock st1 < timeout
              then (case sleep 100 st1 of (t', st2) \<Rightarrow> poll pf dir timeout t' st2 es)
              else (Some (files_response st1 dir), st1))"

definition get_files :: "platform \<Rightarrow> string \<Rightarrow> server \<Rightarrow> event list \<Rightarrow> response option \<times> server" where
  "get_files pf dir st evs =
     (if \<not> socket_open st then (Some (Status 503), st)
      else if no_listing st dir
           then (case request_dir pf dir st of
                   Inl e \<Rightarrow> (None, st)
                 | Inr st1 \<Rightarrow>
                     (let timeout = clock st1 + 15000
                      in if no_listing st1 dir \<and> clock st1 < timeout
                         then (case sleep 100 st1 of (t, st2) \<Rightarrow> poll pf dir timeout t st2 evs)
                         else (Some (files_response st1 dir), st1)))
           else (Some (files_response st dir), st))"

subsection \<open>\<open>GET /file/view/:dir/:filename\<close>\<close>

definition file_view :: "platform \<Rightarrow> string \<Rightarrow> string \<Rightarrow> server \<Rightarrow> event list \<Rightarrow> response option \<times> server" where
  \<comment> \<open>up to the call of \<open>res.sendFile\<close>, whose callback is \<open>sendFile_callback\<close>\<close>
  "file_view pf dir filename st evs =
     (if \<not> socket_open st then (Some (Status 503), st)
      else (case fetchFileFromAgent pf dir filename st of
              (Inl e, st1) \<Rightarrow> (Some (Status 500), console_log (Error_in_file_view e) st1)
            | (Inr p, st1) \<Rightarrow>
                (case await pf p st1 evs of
                   (None, st2, _) \<Rightarrow> (None, st2)
                 | (Some v, st2, _) \<Rightarrow>
                     (case v of
                        None \<Rightarrow> (Some (Status 504), st2)
                      | Some sp \<Rightarrow>
                          \<comment> \<open>\<open>!savePath\<close> holds of \<open>null\<close> and of the empty string\<close>
                          if sp = [] then (Some (Status 504), st2)
                          else (Some (SendFile sp), st2)))))"

subsection \<open>\<open>GET /download-all/:dir\<close>\<close>

datatype fetched = Threw js_error | Resolved nat "string option" | Pending nat

record zip =
  entries :: "(string \<times> string) list"
  progress :: "(string \<times> fetched) list"
  finalized :: bool

text \<open>
  \<open>entries\<close> are the calls of \<open>archive.file\<close> in their order, each with the staged
  location and the name inside the archive; \<open>progress\<close> keeps, for every listing entry
  the loop has reached, how its fetch ended; \<open>finalized\<close> says that
  \<open>archive.finalize()\<close> has been called. The line written to the console after the
  promise of \<open>finalize\<close> is left out.
\<close>

definition archive_file :: "string \<Rightarrow> string option \<Rightarrow> zip \<Rightarrow> zip" where
  \<comment> \<open>the body of \<open>if (filePath)\<close>, which \<open>null\<close> and the empty string do not enter\<close>
  "archive_file file v z =
     (case v of
        None \<Rightarrow> z
      | Some sp \<Rightarrow> if sp = [] then z else z\<lparr>entries := entries z @ [(sp, basename file)]\<rparr>)"

definition reached :: "string \<Rightarrow> fetched \<Rightarrow> zip \<Rightarrow> zip" where
  "reached file r z = z\<lparr>progress := progress z @ [(file, r)]\<rparr>"

fun zip_loop :: "platform \<Rightarrow> string \<Rightarrow> string list \<Rightarrow> zip \<Rightarrow> server \<Rightarrow> event list \<Rightarrow> zip \<times> server" where
  \<comment> \<open>\<open>for (const file of files)\<close> with its \<open>try\<close>, and the call of \<open>finalize\<close> after it\<close>
  "zip_loop pf dir [] z st evs = (z\<lparr>finalized := True\<rparr>, st)"
| "zip_loop pf dir (file # files) z st evs =
     (case fetchFileFromAgent pf dir file (console_log (Fetching_for_zip file) st) of
        (Inl e, st1) \<Rightarrow>
          zip_loop pf dir files (reached file (Threw e) z)
            (console_log (Failed_to_fetch file e) st1) evs
      | (Inr p, st1) \<Rightarrow>
          (case await pf p st1 evs of
             (None, st2, _) \<Rightarrow> (reached file (Pending p) z, st2)
           | (Some v, st2, evs') \<Rightarrow>
               zip_loop pf dir files (reached file (Resolved p v) (archive_file file v z)) st2 evs'))"

definition download_all :: "platform \<Rightarrow> string \<Rightarrow> server \<Rightarrow> event list \<Rightarrow> response \<times> zip \<times> server" where
  "download_all pf dir st evs =
     (let nothing = \<lparr>entries = [], progress = [], finalized = False\<rparr>
      in if \<not> socket_open st then (Status 503, nothing, st)
         else (case tempDirFiles st dir of
                 None \<Rightarrow> (Status 400, nothing, st)
               | Some files \<Rightarrow>
                   if length files = 0 then (Status 400, nothing, st)
                   else (case zip_loop pf dir files nothing
                                 (console_log (Starting_zip (length files) dir) st) evs of
                           (z, st1) \<Rightarrow> (Attachment (dir @ ''.zip''), z, st1))))"

section \<open>Well-formed states\<close>

definition matching :: "file_data \<Rightarrow> waiter \<Rightarrow> bool" where
  \<comment> \<open>the handler of waiter \<open>w\<close> accepts the arrival \<open>fd\<close>\<close>
  "matching fd w \<longleftrightarrow> loose_match (filePath w) (path fd)"

definition wf :: "server \<Rightarrow> bool" where
  \<comment> \<open>what holds in every state the server reaches: a listener belongs to one pending
      promise and has its timeout pending, and no identity in use is yet to be drawn\<close>
  "wf st \<longleftrightarrow>
     distinct (map wid (fileEvents st)) \<and>
     (\<forall>w \<in> set (fileEvents st).
        wid w < next_id st \<and> promises st (wid w) = None \<and>
        (\<exists>tm. timers st (wid w) = Some tm \<and> kind tm = Fetch_timeout)) \<and>
     (\<forall>t \<in> dom (timers st). t < next_id st) \<and>
     (\<forall>p \<in> dom (promises st). p < next_id st)"


definition armed :: "nat \<Rightarrow> string \<Rightarrow> nat \<Rightarrow> server \<Rightarrow> bool" where
  \<comment> \<open>the fetch with promise \<open>p\<close> for the path \<open>fp\<close>, begun at time \<open>t0\<close>: while the
      promise is pending, its waiter listens and its timeout is pending; afterwards neither\<close>
  "armed p fp t0 st \<longleftrightarrow>
     p < next_id st \<and> t0 \<le> clock st \<and>
     (promises st p = None \<longrightarrow>
        \<lparr>wid = p, filePath = fp\<rparr> \<in> set (fileEvents st) \<and>
        timers st p = Some \<lparr>due = t0 + 60000, kind = Fetch_timeout\<rparr>) \<and>
     (promises st p \<noteq> None \<longrightarrow> p \<notin> wid ` set (fileEvents st) \<and> timers st p = None)"

definition unanswered :: "nat \<Rightarrow> nat \<Rightarrow> server \<Rightarrow> bool" where
  \<comment> \<open>the promise is pending, or it was settled with \<open>null\<close> when the deadline had passed\<close>
  "unanswered p t0 st \<longleftrightarrow>
     promises st p = None \<or> (promises st p = Some None \<and> t0 + 60000 \<le> clock st)"

definition extends :: "server \<Rightarrow> server \<Rightarrow> bool" where
  \<comment> \<open>from \<open>st\<close> to \<open>st'\<close> the trace has only grown, a settled promise has kept its
      value, and a promise that has been settled in between is in the new part of the trace\<close>
  "extends st st' \<longleftrightarrow>
     (\<exists>acts. trace st' = trace st @ acts \<and>
        (\<forall>p v. promises st p = None \<and> promises st' p = Some v \<longrightarrow> Settle p v \<in> set acts)) \<and>
     (\<forall>p v. promises st p = Some v \<longrightarrow> promises st' p = Some v)"

section \<open>Reading the progress of an archive and the trace\<close>

fun archived :: "(string \<times> fetched) list \<Rightarrow> (string \<times> string) list" where
  \<comment> \<open>one archive entry for every fetch that resolved with a location, under the base name
      of the listing entry\<close>
  "archived [] = []"
| "archived ((file, Resolved p (Some sp)) # rest) =
     (if sp = [] then archived rest else (sp, basename file) # archived rest)"
| "archived (_ # rest) = archived rest"

fun thrown :: "(string \<times> fetched) list \<Rightarrow> (string \<times> js_error) list" where
  \<comment> \<open>the listing entries whose fetch threw, with the exception\<close>
  "thrown [] = []"
| "thrown ((file, Threw e) # rest) = (file, e) # thrown rest"
| "thrown (_ # rest) = thrown rest"

fun failures :: "action list \<Rightarrow> (string \<times> js_error) list" where
  \<comment> \<open>the lines \<open>Failed to fetch ... for zip\<close> of a trace\<close>
  "failures [] = []"
| "failures (Console (Failed_to_fetch file e) # rest) = (file, e) # failures rest"
| "failures (_ # rest) = failures rest"

fun listens :: "action list \<Rightarrow> nat list" where
  \<comment> \<open>the listeners registered in a trace, by the promises they belong to\<close>
  "listens [] = []"
| "listens (Listen q # rest) = q # listens rest"
| "listens (_ # rest) = listens rest"

definition registered_once :: "server \<Rightarrow> bool" where
  \<comment> \<open>no listener has been registered twice, and none for a promise yet to be made\<close>
  "registered_once st \<longleftrightarrow>
     distinct (listens (trace st)) \<and> (\<forall>q \<in> set (listens (trace st)). q < next_id st)"

fun settled :: "fetched \<Rightarrow> bool" where
  "settled (Pending p) = False"
| "settled _ = True"

fun fetch_id :: "fetched \<Rightarrow> nat option" where
  \<comment> \<open>the promise of the fetch, when the call returned one\<close>
  "fetch_id (Threw e) = None"
| "fetch_id (Resolved p v) = Some p"
| "fetch_id (Pending p) = Some p"

fun resolution :: "string \<times> fetched \<Rightarrow> action option" where
  \<comment> \<open>what the trace shows when the fetch of a listing entry has ended: the settlement of
      its promise, or the line about the exception\<close>
  "resolution (file, Threw e) = Some (Console (Failed_to_fetch file e))"
| "resolution (file, Resolved p v) = Some (Settle p v)"
| "resolution (file, Pending p) = None"

section \<open>What a message or a turn brings\<close>




fun brings_file :: "string \<Rightarrow> ws_message \<Rightarrow> bool" where
  \<comment> \<open>a \<open>file\<close> message whose path the waiter for \<open>fp\<close> would accept\<close>
  "brings_file fp (JSON_object data) =
     (data_type data = Some ''file'' \<and>
      (case data_path data of None \<Rightarrow> False | Some q \<Rightarrow> loose_match fp q))"
| "brings_file fp _ = False"

fun file_arrives :: "string \<Rightarrow> event \<Rightarrow> bool" where
  "file_arrives fp (Agent_messages ms) = (\<exists>m \<in> set ms. brings_file fp m)"
| "file_arrives fp _ = False"

section \<open>A platform and messages for the examples\<close>

definition example_platform :: platform where
  \<comment> \<open>the upload directory is \<open>/srv/uploads\<close>; \<open>path.join\<close> normalises the names
      \<open>""\<close>, \<open>"."\<close> and \<open>".."\<close> away, and a directory cannot be written as a file\<close>
  "example_platform =
     \<lparr>join_upload_dir =
        (\<lambda>n. if n = [] \<or> n = ''.'' then ''/srv/uploads''
             else if n = ''..'' then ''/srv''
             else ''/srv/uploads/'' @ n),
      writeFileSync_fails = (\<lambda>l. l = ''/srv/uploads'' \<or> l = ''/srv''),
      send_throws_unless_open = False\<rparr>"

definition file_message :: "string \<Rightarrow> string \<Rightarrow> ws_message" where
  \<comment> \<open>\<open>{type: "file", path, content}\<close>\<close>
  "file_message p c =
     JSON_object \<lparr>data_type = Some ''file'', data_path = Some p, data_content = Some c,
                  data_dir = None, data_files = None\<rparr>"

definition dir_list_message :: "string \<Rightarrow> string list \<Rightarrow> ws_message" where
  \<comment> \<open>\<open>{type: "dir_list", dir, files}\<close>\<close>
  "dir_list_message d fs =
     JSON_object \<lparr>data_type = Some ''dir_list'', data_path = None, data_content = None,
                  data_dir = Some d, data_files = Some fs\<rparr>"

definition connected :: server where
  \<comment> \<open>the agent has connected\<close>
  "connected = run example_platform [Agent_connects] initial"

definition listed :: server where
  \<comment> \<open>the agent has connected and pushed the listing of \<open>/sdcard/dl\<close>\<close>
  "listed = run example_platform
     [Agent_connects,
      Agent_messages [dir_list_message ''/sdcard/dl'' [''a.jpg'', ''b.jpg'', ''c.jpg'']]] initial"

definition listed_then_closed :: server where
  \<comment> \<open>and has then disconnected\<close>
  "listed_then_closed = step example_platform Agent_closes listed"

definition staged :: server where
  \<comment> \<open>the agent has connected and pushed the file \<open>/sdcard/dl/a.jpg\<close>\<close>
  "staged = run example_platform
     [Agent_connects, Agent_messages [file_message ''/sdcard/dl/a.jpg'' ''QUJD'']] initial"

definition three_files :: "event list" where
  \<comment> \<open>what happens while the archive of \<open>/sdcard/dl\<close> is assembled: the agent answers the
      first request, lets the second run into its timeout, and answers the third\<close>
  "three_files =
     [Agent_messages [file_message ''/sdcard/dl/a.jpg'' ''QUJD''],
      Time_passes 60000,
      Timer_fires 1,
      Agent_messages [file_message ''/sdcard/dl/c.jpg'' ''QUJE'']]"

section \<open>Facts about the string operations\<close>


lemma startsWith_iff: "startsWith s p \<longleftrightarrow> (\<exists>r. s = p @ r)"
  unfolding startsWith_def
  by (metis append_eq_conv_conj append_take_drop_id)

lemma endsWith_refl: "endsWith s s"
  by (simp add: endsWith_def)

lemma match_drive_iff:
  "match_drive s \<longleftrightarrow> (\<exists>c r. s = c # CHR '':'' # r \<and> is_ascii_letter c)"
  by (cases s rule: match_drive.cases) auto

lemma filePath_of_iff:
  "filePath_of dir filename =
     (if (\<exists>rest. filename = CHR ''/'' # rest) \<or> (\<exists>rest. filename = ''storage'' @ rest) \<or>
         (\<exists>c rest. filename = c # CHR '':'' # rest \<and> is_ascii_letter c)
      then filename
      else (if dir \<noteq> [] \<and> (last dir = CHR ''/'' \<or> last dir = backslash) then butlast dir else dir)
             @ ''/'' @ filename)"
proof -
  have "startsWith filename ''/'' \<longleftrightarrow> (\<exists>rest. filename = CHR ''/'' # rest)"
    by (simp add: startsWith_iff)
  moreover have "startsWith filename ''storage'' \<longleftrightarrow> (\<exists>rest. filename = ''storage'' @ rest)"
    by (rule startsWith_iff)
  ultimately show ?thesis
    unfolding filePath_of_def match_drive_iff strip_trailing_separator_def is_separator_def
      slash_def Let_def
    by simp
qed

section \<open>Facts about the waiters\<close>

lemma handler_promises:
  "promises (handler w fd st) p =
     (if p = wid w \<and> matching fd w \<and> promises st p = None then Some (Some (savePath fd))
      else promises st p)"
  by (auto simp add: handler_def matching_def resolve_def off_def clearTimeout_def console_log_def
      emit_action_def split: option.splits)

lemma handler_fileEvents:
  "fileEvents (handler w fd st) =
     (if matching fd w then filter (\<lambda>v. wid v \<noteq> wid w) (fileEvents st) else fileEvents st)"
  by (simp add: handler_def matching_def resolve_def off_def clearTimeout_def console_log_def
      emit_action_def split: option.splits)

lemma handler_timers:
  "timers (handler w fd st) t =
     (if t = wid w \<and> matching fd w then None else timers st t)"
  by (simp add: handler_def matching_def resolve_def off_def clearTimeout_def console_log_def
      emit_action_def split: option.splits)

lemma handler_frame [simp]:
  "next_id (handler w fd st) = next_id st"
  "clock (handler w fd st) = clock st"
  "agentSocket (handler w fd st) = agentSocket st"
  "tempDirFiles (handler w fd st) = tempDirFiles st"
  "uploads (handler w fd st) = uploads st"
  "crashed (handler w fd st) = crashed st"
  by (simp_all add: handler_def resolve_def off_def clearTimeout_def console_log_def
      emit_action_def split: option.splits)

lemma handlers_frame [simp]:
  "next_id (fold (\<lambda>w. handler w fd) ws st) = next_id st"
  "clock (fold (\<lambda>w. handler w fd) ws st) = clock st"
  "agentSocket (fold (\<lambda>w. handler w fd) ws st) = agentSocket st"
  "tempDirFiles (fold (\<lambda>w. handler w fd) ws st) = tempDirFiles st"
  "uploads (fold (\<lambda>w. handler w fd) ws st) = uploads st"
  "crashed (fold (\<lambda>w. handler w fd) ws st) = crashed st"
  by (induction ws arbitrary: st) simp_all

lemma emit_file_frame [simp]:
  "next_id (emit_file fd st) = next_id st"
  "clock (emit_file fd st) = clock st"
  "agentSocket (emit_file fd st) = agentSocket st"
  "tempDirFiles (emit_file fd st) = tempDirFiles st"
  "uploads (emit_file fd st) = uploads st"
  "crashed (emit_file fd st) = crashed st"
  by (simp_all add: emit_file_def)

lemma handlers_promises:
  "promises (fold (\<lambda>w. handler w fd) ws st) p =
     (if (\<exists>w \<in> set ws. wid w = p \<and> matching fd w) \<and> promises st p = None
      then Some (Some (savePath fd)) else promises st p)"
proof (induction ws arbitrary: st)
  case Nil
  then show ?case by simp
next
  case (Cons w ws)
  show ?case
    by (simp add: Cons.IH handler_promises) blast
qed

lemma handlers_fileEvents:
  "fileEvents (fold (\<lambda>w. handler w fd) ws st) =
     filter (\<lambda>v. \<not> (\<exists>w \<in> set ws. wid w = wid v \<and> matching fd w)) (fileEvents st)"
proof (induction ws arbitrary: st)
  case Nil
  then show ?case by simp
next
  case (Cons w ws)
  show ?case
    by (auto simp add: Cons.IH handler_fileEvents intro!: filter_cong)
qed

lemma handlers_timers:
  "timers (fold (\<lambda>w. handler w fd) ws st) t =
     (if (\<exists>w \<in> set ws. wid w = t \<and> matching fd w) then None else timers st t)"
proof (induction ws arbitrary: st)
  case Nil
  then show ?case by simp
next
  case (Cons w ws)
  show ?case
    by (auto simp add: Cons.IH handler_timers)
qed

lemma emit_file_promises:
  "promises (emit_file fd st) p =
     (if (\<exists>w \<in> set (fileEvents st). wid w = p \<and> matching fd w) \<and> promises st p = None
      then Some (Some (savePath fd)) else promises st p)"
  by (simp add: emit_file_def handlers_promises)

lemma emit_file_fileEvents:
  "fileEvents (emit_file fd st) =
     filter (\<lambda>v. \<not> (\<exists>w \<in> set (fileEvents st). wid w = wid v \<and> matching fd w)) (fileEvents st)"
  by (simp add: emit_file_def handlers_fileEvents)

lemma same_wid:
  "distinct (map wid ws) \<Longrightarrow> w \<in> set ws \<Longrightarrow> v \<in> set ws \<Longrightarrow> wid w = wid v \<Longrightarrow> w = v"
  by (meson distinct_map inj_on_def)

lemma emit_file_timers:
  "timers (emit_file fd st) t =
     (if (\<exists>w \<in> set (fileEvents st). wid w = t \<and> matching fd w) then None else timers st t)"
  by (simp add: emit_file_def handlers_timers)


lemma wf_emit_file: "wf st \<Longrightarrow> wf (emit_file fd st)"
  unfolding wf_def
  by (auto simp add: emit_file_promises emit_file_fileEvents emit_file_timers distinct_map_filter
      dom_def split: if_splits)

section \<open>Well-formedness is kept\<close>

lemma wf_initial: "wf initial"
  by (simp add: wf_def initial_def)

lemma wf_fetch: "wf st \<Longrightarrow> wf (snd (fetchFileFromAgent pf dir filename st))"
  unfolding wf_def
  by (auto simp add: fetchFileFromAgent_def agentSocket_send_def console_log_def emit_action_def
      on_def setTimeout_def Let_def less_Suc_eq dom_def
      split: option.splits ready_state.splits if_splits sum.splits)

lemma wf_sleep: "wf st \<Longrightarrow> wf (snd (sleep ms st))"
  unfolding wf_def
  by (auto simp add: sleep_def setTimeout_def Let_def less_Suc_eq dom_def split: if_splits)

lemma wf_timer_fires: "wf st \<Longrightarrow> wf (timer_fires t st)"
  unfolding wf_def
  by (auto simp add: timer_fires_def resolve_def off_def clearTimeout_def emit_action_def Let_def
      distinct_map_filter dom_def
      split: option.splits timer_kind.splits if_splits)

lemma wf_on_message: "wf st \<Longrightarrow> wf (snd (on_message pf m st))"
proof -
  assume w: "wf st"
  have arrival: "wf (snd (on_file pf d st))" for d
  proof -
    have "wf (console_log l (st\<lparr>uploads := u\<rparr>))" for l u
      using w by (simp add: wf_def console_log_def emit_action_def)
    then show ?thesis
      using w
      by (auto simp add: on_file_def fs_writeFileSync_def Let_def wf_emit_file
          split: option.splits sum.splits if_splits)
  qed
  have listing: "wf (snd (on_dir_list d s))" if "wf s" for d s
    using that
    by (auto simp add: on_dir_list_def Let_def wf_def console_log_def emit_action_def
        split: option.splits)
  show ?thesis
  proof (cases m)
    case (JSON_object d)
    show ?thesis
    proof (cases "data_type d = Some ''file''")
      case True
      then show ?thesis
        using arrival [of d] JSON_object
        by (cases "on_file pf d st") (auto simp add: on_message_def split: option.splits)
    next
      case False
      then show ?thesis
        using listing [OF w, of d] w JSON_object
        by (auto simp add: on_message_def)
    qed
  qed (use w in \<open>simp_all add: on_message_def\<close>)
qed

lemma wf_crashed: "wf st \<Longrightarrow> wf (st\<lparr>crashed := c\<rparr>)"
  by (simp add: wf_def)

lemma wf_deliver: "wf st \<Longrightarrow> wf (deliver pf ms st)"
proof (induction ms arbitrary: st)
  case Nil
  then show ?case by simp
next
  case (Cons m ms)
  have "wf (snd (on_message pf m st))"
    using Cons.prems by (rule wf_on_message)
  then show ?case
    using Cons.IH
    by (cases "on_message pf m st") (auto simp add: wf_crashed split: option.splits)
qed

lemma wf_turn: "wf st \<Longrightarrow> wf (turn pf e st)"
proof (cases e)
  case (Agent_messages ms)
  assume "wf st"
  then show ?thesis
    using Agent_messages by (simp add: turn_def wf_deliver)
next
  case (Timer_fires t)
  assume "wf st"
  then show ?thesis
    using Timer_fires by (simp add: turn_def wf_timer_fires)
next
  case (Other_fetch d f)
  assume "wf st"
  then show ?thesis
    using Other_fetch by (simp add: turn_def wf_fetch)
next
  case Other_sleep
  assume "wf st"
  then show ?thesis
    using Other_sleep by (simp add: turn_def wf_sleep)
qed (auto simp add: turn_def wf_def request_dir_def agentSocket_send_def console_log_def
      emit_action_def sendFile_callback_def fs_unlinkSync_def
      split: option.splits ready_state.splits sum.splits if_splits)

lemma wf_step: "wf st \<Longrightarrow> wf (step pf e st)"
  by (simp add: step_def wf_turn)

lemma wf_run: "wf st \<Longrightarrow> wf (run pf evs st)"
  unfolding run_def by (induction evs arbitrary: st) (simp_all add: wf_step)

section \<open>What the operations leave alone\<close>

lemma fetch_frame [simp]:
  "tempDirFiles (snd (fetchFileFromAgent pf dir filename st)) = tempDirFiles st"
  "clock (snd (fetchFileFromAgent pf dir filename st)) = clock st"
  "agentSocket (snd (fetchFileFromAgent pf dir filename st)) = agentSocket st"
  "uploads (snd (fetchFileFromAgent pf dir filename st)) = uploads st"
  "crashed (snd (fetchFileFromAgent pf dir filename st)) = crashed st"
  by (simp_all add: fetchFileFromAgent_def agentSocket_send_def console_log_def emit_action_def
      on_def setTimeout_def Let_def split: option.splits ready_state.splits sum.splits)

lemma sleep_frame [simp]:
  "tempDirFiles (snd (sleep ms st)) = tempDirFiles st"
  "clock (snd (sleep ms st)) = clock st"
  "agentSocket (snd (sleep ms st)) = agentSocket st"
  "uploads (snd (sleep ms st)) = uploads st"
  "crashed (snd (sleep ms st)) = crashed st"
  "fileEvents (snd (sleep ms st)) = fileEvents st"
  "trace (snd (sleep ms st)) = trace st"
  "fst (sleep ms st) = next_id st"
  "next_id (snd (sleep ms st)) = Suc (next_id st)"
  by (simp_all add: sleep_def setTimeout_def Let_def)

lemma timer_fires_frame [simp]:
  "tempDirFiles (timer_fires t st) = tempDirFiles st"
  "clock (timer_fires t st) = clock st"
  "agentSocket (timer_fires t st) = agentSocket st"
  "uploads (timer_fires t st) = uploads st"
  "crashed (timer_fires t st) = crashed st"
  "next_id (timer_fires t st) = next_id st"
  by (simp_all add: timer_fires_def resolve_def off_def clearTimeout_def emit_action_def Let_def
      split: option.splits timer_kind.splits)

lemma on_file_frame [simp]:
  "tempDirFiles (snd (on_file pf data st)) = tempDirFiles st"
  "clock (snd (on_file pf data st)) = clock st"
  "agentSocket (snd (on_file pf data st)) = agentSocket st"
  "crashed (snd (on_file pf data st)) = crashed st"
  "next_id (snd (on_file pf data st)) = next_id st"
  by (simp_all add: on_file_def fs_writeFileSync_def console_log_def emit_action_def Let_def
      split: option.splits)

lemma on_dir_list_frame [simp]:
  "clock (snd (on_dir_list data st)) = clock st"
  "agentSocket (snd (on_dir_list data st)) = agentSocket st"
  "crashed (snd (on_dir_list data st)) = crashed st"
  "next_id (snd (on_dir_list data st)) = next_id st"
  "uploads (snd (on_dir_list data st)) = uploads st"
  "fileEvents (snd (on_dir_list data st)) = fileEvents st"
  "promises (snd (on_dir_list data st)) = promises st"
  "timers (snd (on_dir_list data st)) = timers st"
  by (simp_all add: on_dir_list_def console_log_def emit_action_def Let_def split: option.splits)

lemma on_message_cases:
  "on_message pf m st =
     (case m of
        Not_JSON \<Rightarrow> (Some SyntaxError, st)
      | JSON_null \<Rightarrow> (Some TypeError, st)
      | JSON_not_object \<Rightarrow> (None, st)
      | JSON_object data \<Rightarrow>
          if data_type data = Some ''file'' then on_file pf data st
          else if data_type data = Some ''dir_list'' then on_dir_list data st
          else (None, st))"
  by (cases "on_file pf (case m of JSON_object data \<Rightarrow> data) st")
     (auto simp add: on_message_def split: ws_message.splits option.splits)

lemma on_message_frame [simp]:
  "clock (snd (on_message pf m st)) = clock st"
  "agentSocket (snd (on_message pf m st)) = agentSocket st"
  "crashed (snd (on_message pf m st)) = crashed st"
  "next_id (snd (on_message pf m st)) = next_id st"
  by (simp_all add: on_message_cases split: ws_message.splits)

lemma deliver_frame [simp]:
  "clock (deliver pf ms st) = clock st"
  "agentSocket (deliver pf ms st) = agentSocket st"
  "next_id (deliver pf ms st) = next_id st"
proof (induction ms arbitrary: st)
  case Nil
  {
    case 1 show ?case by simp
  next
    case 2 show ?case by simp
  next
    case 3 show ?case by simp
  }
next
  case (Cons m ms)
  {
    case 1
    have "clock (snd (on_message pf m st)) = clock st" by simp
    then show ?case
      using Cons.IH(1) by (cases "on_message pf m st") (auto split: option.splits)
  next
    case 2
    have "agentSocket (snd (on_message pf m st)) = agentSocket st" by simp
    then show ?case
      using Cons.IH(2) by (cases "on_message pf m st") (auto split: option.splits)
  next
    case 3
    have "next_id (snd (on_message pf m st)) = next_id st" by simp
    then show ?case
      using Cons.IH(3) by (cases "on_message pf m st") (auto split: option.splits)
  }
qed

lemma clock_step: "clock st \<le> clock (step pf e st)"
  by (cases e)
     (auto simp add: step_def turn_def request_dir_def agentSocket_send_def console_log_def
        emit_action_def sendFile_callback_def fs_unlinkSync_def
        split: option.splits ready_state.splits sum.splits)

lemma clock_run: "clock st \<le> clock (run pf evs st)"
  unfolding run_def
  by (induction evs arbitrary: st) (auto intro: order_trans [OF clock_step])

lemma crashed_step: "crashed st \<noteq> None \<Longrightarrow> step pf e st = st"
  by (auto simp add: step_def)

section \<open>Evaluating the examples\<close>

lemmas example_defs = connected_def listed_def listed_then_closed_def staged_def run_def step_def turn_def
  initial_def example_platform_def file_message_def dir_list_message_def on_message_def
  on_file_def on_dir_list_def dir_key_def fs_writeFileSync_def console_log_def emit_action_def
  emit_file_def separators_to_underscores_def is_separator_def slash_def backslash_def
  underscore_def Let_def

lemmas run_defs = example_defs get_files_def sleep_def setTimeout_def timer_fires_def resolve_def
  clearTimeout_def off_def on_def request_dir_def agentSocket_send_def socket_open_def
  no_listing_def files_response_def fetchFileFromAgent_def handler_def

lemmas match_defs = loose_match_def endsWith_def basename_def backslashes_to_slashes_def
  filePath_of_def startsWith_def strip_trailing_separator_def

lemmas zip_defs = run_defs match_defs download_all_def archive_file_def reached_def
  three_files_def

lemma three_files_run:
  "download_all example_platform ''/sdcard/dl'' listed three_files =
     (Attachment ''/sdcard/dl.zip'',
      \<lparr>entries = [(''/srv/uploads/_sdcard_dl_a.jpg'', ''a.jpg''),
                  (''/srv/uploads/_sdcard_dl_c.jpg'', ''c.jpg'')],
       progress = [(''a.jpg'', Resolved 0 (Some ''/srv/uploads/_sdcard_dl_a.jpg'')),
                   (''b.jpg'', Resolved 1 None),
                   (''c.jpg'', Resolved 2 (Some ''/srv/uploads/_sdcard_dl_c.jpg''))],
       finalized = True\<rparr>,
      snd (snd (download_all example_platform ''/sdcard/dl'' listed three_files)))"
  by (simp add: zip_defs)

lemma wf_listed: "wf listed"
  unfolding listed_def by (rule wf_run [OF wf_initial])

section \<open>Waiting for a listing\<close>




lemma no_listing_sleep [simp]: "no_listing (snd (sleep ms st)) d = no_listing st d"
  by (simp add: no_listing_def)













section \<open>A fetch that is waiting\<close>

lemma armed_fetch:
  assumes "wf st" and "fetchFileFromAgent pf dir filename st = (Inr p, st1)"
  shows "armed p (filePath_of dir filename) (clock st) st1 \<and> promises st1 p = None \<and>
         p = next_id st \<and> wf st1"
proof -
  have "wf st1"
    using wf_fetch [OF assms(1), of pf dir filename] assms(2) by simp
  then show ?thesis
    using assms(2)
    by (auto simp add: armed_def fetchFileFromAgent_def agentSocket_send_def console_log_def
        emit_action_def on_def setTimeout_def Let_def
        split: option.splits ready_state.splits sum.splits if_splits)
qed

lemma armed_emit_file:
  assumes "wf st" and "armed p fp t0 st"
  shows "armed p fp t0 (emit_file fd st)"
proof -
  have "v = \<lparr>wid = p, filePath = fp\<rparr>"
    if "v \<in> set (fileEvents st)" "wid v = p" for v
  proof -
    have "promises st p = None"
      using assms(1) that by (auto simp add: wf_def)
    then have "\<lparr>wid = p, filePath = fp\<rparr> \<in> set (fileEvents st)"
      using assms(2) by (simp add: armed_def)
    then show ?thesis
      using same_wid [of "fileEvents st" v "\<lparr>wid = p, filePath = fp\<rparr>"] assms(1) that
      by (simp add: wf_def)
  qed
  then show ?thesis
    using assms(2)
    by (auto simp add: armed_def emit_file_promises emit_file_fileEvents emit_file_timers
        split: if_splits)
qed

lemma unanswered_emit_file:
  assumes "wf st" and "armed p fp t0 st" and "unanswered p t0 st"
    and "\<not> loose_match fp (path fd)"
  shows "unanswered p t0 (emit_file fd st)"
proof -
  have "\<not> matching fd v" if "v \<in> set (fileEvents st)" "wid v = p" for v
  proof -
    have "promises st p = None"
      using assms(1) that by (auto simp add: wf_def)
    then have "\<lparr>wid = p, filePath = fp\<rparr> \<in> set (fileEvents st)"
      using assms(2) by (simp add: armed_def)
    then have "v = \<lparr>wid = p, filePath = fp\<rparr>"
      using same_wid [of "fileEvents st" v "\<lparr>wid = p, filePath = fp\<rparr>"] assms(1) that
      by (simp add: wf_def)
    then show ?thesis
      using assms(4) by (simp add: matching_def)
  qed
  then show ?thesis
    using assms(3) by (auto simp add: unanswered_def emit_file_promises)
qed

lemma armed_on_message:
  assumes "wf st" and "armed p fp t0 st"
  shows "armed p fp t0 (snd (on_message pf m st))"
proof -
  have arrival: "armed p fp t0 (snd (on_file pf data st))" for data
  proof -
    have "wf (console_log l (st\<lparr>uploads := u\<rparr>))"
      "armed p fp t0 (console_log l (st\<lparr>uploads := u\<rparr>))" for l u
      using assms by (simp_all add: wf_def armed_def console_log_def emit_action_def)
    then show ?thesis
      using assms(2)
      by (auto simp add: on_file_def fs_writeFileSync_def Let_def armed_emit_file
          split: option.splits)
  qed
  have listing: "armed p fp t0 (snd (on_dir_list data st))" for data
    using assms(2) by (simp add: armed_def)
  show ?thesis
    using arrival listing assms(2)
    by (simp add: on_message_cases split: ws_message.splits)
qed

lemma unanswered_on_message:
  assumes "wf st" and "armed p fp t0 st" and "unanswered p t0 st" and "\<not> brings_file fp m"
  shows "unanswered p t0 (snd (on_message pf m st))"
proof -
  have arrival: "unanswered p t0 (snd (on_file pf data st))"
    if "case data_path data of None \<Rightarrow> True | Some q \<Rightarrow> \<not> loose_match fp q" for data
  proof -
    have "wf (console_log l (st\<lparr>uploads := u\<rparr>))"
      "armed p fp t0 (console_log l (st\<lparr>uploads := u\<rparr>))"
      "unanswered p t0 (console_log l (st\<lparr>uploads := u\<rparr>))" for l u
      using assms
      by (simp_all add: wf_def armed_def unanswered_def console_log_def emit_action_def)
    then show ?thesis
      using assms(3) that
      by (auto simp add: on_file_def fs_writeFileSync_def Let_def split: option.splits
          intro!: unanswered_emit_file [where fp = fp])
  qed
  have listing: "unanswered p t0 (snd (on_dir_list data st))" for data
    using assms(3) by (simp add: unanswered_def)
  show ?thesis
  proof (cases m)
    case (JSON_object data)
    then show ?thesis
      using arrival [of data] listing assms(3,4)
      by (auto simp add: on_message_cases split: option.splits)
  qed (use assms(3) in \<open>simp_all add: on_message_cases\<close>)
qed

lemma armed_deliver:
  assumes "wf st" and "armed p fp t0 st"
  shows "armed p fp t0 (deliver pf ms st)"
  using assms
proof (induction ms arbitrary: st)
  case Nil
  then show ?case by simp
next
  case (Cons m ms)
  define st1 where "st1 = snd (on_message pf m st)"
  have c: "armed p fp t0 (s\<lparr>crashed := c\<rparr>) = armed p fp t0 s" for s c
    by (simp add: armed_def)
  have "wf st1" "armed p fp t0 st1"
    using Cons.prems by (simp_all add: st1_def wf_on_message armed_on_message)
  then show ?case
    using Cons.IH [of st1]
    by (cases "on_message pf m st") (auto simp add: st1_def c split: option.splits)
qed

lemma unanswered_deliver:
  assumes "wf st" and "armed p fp t0 st" and "unanswered p t0 st"
    and "\<forall>m \<in> set ms. \<not> brings_file fp m"
  shows "unanswered p t0 (deliver pf ms st)"
  using assms
proof (induction ms arbitrary: st)
  case Nil
  then show ?case by simp
next
  case (Cons m ms)
  define st1 where "st1 = snd (on_message pf m st)"
  have c: "unanswered p t0 (s\<lparr>crashed := c\<rparr>) = unanswered p t0 s" for s c
    by (simp add: unanswered_def)
  have "wf st1" "armed p fp t0 st1" "unanswered p t0 st1"
    using Cons.prems
    by (simp_all add: st1_def wf_on_message armed_on_message unanswered_on_message)
  then show ?case
    using Cons.IH [of st1] Cons.prems(4)
    by (cases "on_message pf m st") (auto simp add: st1_def c split: option.splits)
qed

lemma armed_step:
  assumes "wf st" and "armed p fp t0 st"
  shows "armed p fp t0 (step pf e st)"
proof (cases "crashed st = None")
  case False
  then show ?thesis
    using assms(2) by (simp add: crashed_step)
next
  case True
  show ?thesis
  proof (cases e)
    case (Agent_messages ms)
    then show ?thesis
      using assms True by (simp add: step_def turn_def armed_deliver)
  next
    case (Timer_fires t')
    have "wid v = p" if "v = \<lparr>wid = p, filePath = fp\<rparr>" for v
      using that by simp
    then show ?thesis
      using assms True Timer_fires
      by (auto simp add: step_def turn_def armed_def timer_fires_def resolve_def off_def
          clearTimeout_def emit_action_def Let_def wf_def
          split: option.splits timer_kind.splits if_splits)
  next
    case (Other_fetch d f)
    then show ?thesis
      using assms True
      by (auto simp add: step_def turn_def armed_def fetchFileFromAgent_def agentSocket_send_def
          console_log_def emit_action_def on_def setTimeout_def Let_def
          split: option.splits ready_state.splits sum.splits if_splits)
  next
    case Other_sleep
    then show ?thesis
      using assms True
      by (auto simp add: step_def turn_def armed_def sleep_def setTimeout_def Let_def)
  qed (use assms True in \<open>auto simp add: step_def turn_def armed_def request_dir_def
      agentSocket_send_def console_log_def emit_action_def sendFile_callback_def
      fs_unlinkSync_def split: option.splits ready_state.splits sum.splits\<close>)
qed

lemma unanswered_step:
  assumes "wf st" and "armed p fp t0 st" and "unanswered p t0 st" and "\<not> file_arrives fp e"
  shows "unanswered p t0 (step pf e st)"
proof (cases "crashed st = None")
  case False
  then show ?thesis
    using assms(3) by (simp add: crashed_step)
next
  case True
  show ?thesis
  proof (cases e)
    case (Agent_messages ms)
    then show ?thesis
      using assms True by (simp add: step_def turn_def unanswered_deliver)
  next
    case (Timer_fires t')
    then show ?thesis
      using assms True
      by (auto simp add: step_def turn_def armed_def unanswered_def timer_fires_def resolve_def
          off_def clearTimeout_def emit_action_def Let_def
          split: option.splits timer_kind.splits if_splits)
  next
    case (Other_fetch d f)
    then show ?thesis
      using assms True
      by (auto simp add: step_def turn_def armed_def unanswered_def fetchFileFromAgent_def
          agentSocket_send_def console_log_def emit_action_def on_def setTimeout_def Let_def
          split: option.splits ready_state.splits sum.splits if_splits)
  next
    case Other_sleep
    then show ?thesis
      using assms True
      by (auto simp add: step_def turn_def armed_def unanswered_def sleep_def setTimeout_def
          Let_def)
  qed (use assms True in \<open>auto simp add: step_def turn_def armed_def unanswered_def
      request_dir_def agentSocket_send_def console_log_def emit_action_def sendFile_callback_def
      fs_unlinkSync_def split: option.splits ready_state.splits sum.splits\<close>)
qed

lemma armed_run:
  assumes "wf st" and "armed p fp t0 st"
  shows "armed p fp t0 (run pf evs st)"
  using assms unfolding run_def
  by (induction evs arbitrary: st) (simp_all add: wf_step armed_step)

lemma unanswered_run:
  assumes "wf st" and "armed p fp t0 st" and "unanswered p t0 st"
    and "\<forall>e \<in> set evs. \<not> file_arrives fp e"
  shows "unanswered p t0 (run pf evs st)"
  using assms unfolding run_def
  by (induction evs arbitrary: st) (simp_all add: wf_step armed_step unanswered_step)

lemma fetch_promises_other:
  "p \<noteq> next_id st \<Longrightarrow> promises (snd (fetchFileFromAgent pf dir filename st)) p = promises st p"
  by (auto simp add: fetchFileFromAgent_def agentSocket_send_def console_log_def emit_action_def
      on_def setTimeout_def Let_def split: option.splits ready_state.splits sum.splits)

lemma timeout_fires:
  assumes "armed p fp t0 st" and "promises st p = None" and "t0 + 60000 \<le> clock st"
  shows "promises (timer_fires p st) p = Some None"
    and "p \<notin> wid ` set (fileEvents (timer_fires p st))"
    and "timers (timer_fires p st) p = None"
  using assms
  by (auto simp add: armed_def timer_fires_def resolve_def off_def clearTimeout_def
      emit_action_def Let_def)

lemma timeout_not_due:
  assumes "armed p fp t0 st" and "promises st p = None" and "clock st < t0 + 60000"
  shows "timer_fires p st = st"
  using assms by (simp add: armed_def timer_fires_def)

section \<open>The trace only grows\<close>

lemma extends_refl [simp]: "extends st st"
  by (auto simp add: extends_def)

lemma extends_trans: "extends a b \<Longrightarrow> extends b c \<Longrightarrow> extends a c"
proof -
  assume ab: "extends a b" and bc: "extends b c"
  from ab obtain x where x: "trace b = trace a @ x"
    "\<forall>p v. promises a p = None \<and> promises b p = Some v \<longrightarrow> Settle p v \<in> set x"
    by (auto simp add: extends_def)
  from bc obtain y where y: "trace c = trace b @ y"
    "\<forall>p v. promises b p = None \<and> promises c p = Some v \<longrightarrow> Settle p v \<in> set y"
    by (auto simp add: extends_def)
  have keep: "\<forall>p v. promises a p = Some v \<longrightarrow> promises b p = Some v"
    "\<forall>p v. promises b p = Some v \<longrightarrow> promises c p = Some v"
    using ab bc by (auto simp add: extends_def)
  have "Settle p v \<in> set (x @ y)" if "promises a p = None" "promises c p = Some v" for p v
  proof (cases "promises b p")
    case None
    then show ?thesis using y(2) that by simp
  next
    case (Some u)
    then have "promises c p = Some u" using keep(2) by simp
    then have "u = v" using that(2) by simp
    then show ?thesis using x(2) that(1) Some by simp
  qed
  moreover have "trace c = trace a @ (x @ y)"
    using x(1) y(1) by simp
  ultimately show ?thesis
    unfolding extends_def using keep by blast
qed

lemma extends_same:
  "trace st' = trace st \<Longrightarrow> promises st' = promises st \<Longrightarrow> extends st st'"
  by (auto simp add: extends_def)

lemma extends_emit_action: "extends st (emit_action a st)"
  by (auto simp add: extends_def emit_action_def)

lemma extends_handler: "extends st (handler w fd st)"
  by (auto simp add: extends_def handler_def resolve_def off_def clearTimeout_def console_log_def
      emit_action_def split: option.splits)

lemma extends_handlers: "extends st (fold (\<lambda>w. handler w fd) ws st)"
proof (induction ws arbitrary: st)
  case Nil
  then show ?case by simp
next
  case (Cons w ws)
  show ?case
    using extends_trans [OF extends_handler [of st w fd] Cons.IH [of "handler w fd st"]]
    by simp
qed

lemma extends_emit_file: "extends st (emit_file fd st)"
  by (simp add: emit_file_def extends_handlers)

lemma extends_on_message: "extends st (snd (on_message pf m st))"
proof -
  have arrival: "extends st (snd (on_file pf data st))" for data
  proof -
    have "extends st (console_log l (st\<lparr>uploads := u\<rparr>))" for l u
      by (auto simp add: extends_def console_log_def emit_action_def)
    then show ?thesis
      by (auto simp add: on_file_def fs_writeFileSync_def Let_def split: option.splits
          intro: extends_trans [OF _ extends_emit_file])
  qed
  have listing: "extends st (snd (on_dir_list data st))" for data
    by (auto simp add: extends_def on_dir_list_def console_log_def emit_action_def Let_def
        split: option.splits)
  show ?thesis
    using arrival listing by (simp add: on_message_cases split: ws_message.splits)
qed

lemma extends_deliver: "extends st (deliver pf ms st)"
proof (induction ms arbitrary: st)
  case Nil
  then show ?case by simp
next
  case (Cons m ms)
  define st1 where "st1 = snd (on_message pf m st)"
  have 1: "extends st st1"
    by (simp add: st1_def extends_on_message)
  have 2: "extends st1 (st1\<lparr>crashed := c\<rparr>)" for c
    by (auto simp add: extends_def)
  show ?case
    using extends_trans [OF 1 Cons.IH [of st1]] extends_trans [OF 1 2]
    by (cases "on_message pf m st") (auto simp add: st1_def split: option.splits)
qed

lemma extends_fetch: "wf st \<Longrightarrow> extends st (snd (fetchFileFromAgent pf dir filename st))"
  unfolding wf_def extends_def
  by (auto simp add: fetchFileFromAgent_def agentSocket_send_def console_log_def emit_action_def
      on_def setTimeout_def Let_def dom_def
      split: option.splits ready_state.splits sum.splits)

lemma extends_sleep: "wf st \<Longrightarrow> extends st (snd (sleep ms st))"
  unfolding wf_def extends_def
  by (auto simp add: sleep_def setTimeout_def Let_def dom_def)

lemma extends_timer_fires: "extends st (timer_fires t st)"
  by (auto simp add: extends_def timer_fires_def resolve_def off_def clearTimeout_def
      emit_action_def Let_def split: option.splits timer_kind.splits)

lemma extends_step: "wf st \<Longrightarrow> extends st (step pf e st)"
proof (cases "crashed st = None")
  case False
  then show ?thesis by (simp add: crashed_step)
next
  case True
  assume w: "wf st"
  show ?thesis
  proof (cases e)
    case (Agent_messages ms)
    then show ?thesis
      using True by (simp add: step_def turn_def extends_deliver)
  next
    case (Timer_fires t)
    then show ?thesis
      using True by (simp add: step_def turn_def extends_timer_fires)
  next
    case (Other_fetch d f)
    then show ?thesis
      using True w by (simp add: step_def turn_def extends_fetch)
  next
    case Other_sleep
    then show ?thesis
      using True w by (simp add: step_def turn_def extends_sleep)
  qed (use True in \<open>auto simp add: step_def turn_def extends_def request_dir_def
      agentSocket_send_def console_log_def emit_action_def sendFile_callback_def
      fs_unlinkSync_def split: option.splits ready_state.splits sum.splits\<close>)
qed

lemma extends_run: "wf st \<Longrightarrow> extends st (run pf evs st)"
  unfolding run_def
proof (induction evs arbitrary: st)
  case Nil
  then show ?case by simp
next
  case (Cons e evs)
  show ?case
    using extends_trans [OF extends_step [OF Cons.prems, of pf e]
        Cons.IH [OF wf_step [OF Cons.prems, of pf e]]]
    by simp
qed

section \<open>Lines about failed fetches\<close>

lemma failures_append: "failures (a @ b) = failures a @ failures b"
  by (induction a rule: failures.induct) simp_all

lemma failures_handler: "failures (trace (handler w fd st)) = failures (trace st)"
  by (simp add: handler_def resolve_def off_def clearTimeout_def console_log_def
      emit_action_def failures_append split: option.splits)

lemma failures_handlers:
  "failures (trace (fold (\<lambda>w. handler w fd) ws st)) = failures (trace st)"
  by (induction ws arbitrary: st) (simp_all add: failures_handler)

lemma failures_emit_file: "failures (trace (emit_file fd st)) = failures (trace st)"
  by (simp add: emit_file_def failures_handlers)

lemma failures_on_message: "failures (trace (snd (on_message pf m st))) = failures (trace st)"
  by (auto simp add: on_message_cases on_file_def on_dir_list_def fs_writeFileSync_def Let_def
      failures_emit_file console_log_def emit_action_def failures_append
      split: ws_message.splits option.splits)

lemma failures_deliver: "failures (trace (deliver pf ms st)) = failures (trace st)"
proof (induction ms arbitrary: st)
  case Nil
  then show ?case by simp
next
  case (Cons m ms)
  have "failures (trace (snd (on_message pf m st))) = failures (trace st)"
    by (rule failures_on_message)
  then show ?case
    using Cons.IH [of "snd (on_message pf m st)"]
    by (cases "on_message pf m st") (auto split: option.splits)
qed

lemma failures_fetch:
  "failures (trace (snd (fetchFileFromAgent pf dir filename st))) = failures (trace st)"
  by (auto simp add: fetchFileFromAgent_def agentSocket_send_def console_log_def emit_action_def
      on_def setTimeout_def Let_def failures_append
      split: option.splits ready_state.splits sum.splits)

lemma failures_timer_fires: "failures (trace (timer_fires t st)) = failures (trace st)"
  by (auto simp add: timer_fires_def resolve_def off_def clearTimeout_def emit_action_def Let_def
      failures_append split: option.splits timer_kind.splits)

lemma failures_step: "failures (trace (step pf e st)) = failures (trace st)"
  by (cases e)
     (auto simp add: step_def turn_def failures_deliver failures_fetch failures_timer_fires
        request_dir_def agentSocket_send_def console_log_def emit_action_def
        sendFile_callback_def fs_unlinkSync_def failures_append
        split: option.splits ready_state.splits sum.splits)

lemma failures_run: "failures (trace (run pf evs st)) = failures (trace st)"
  unfolding run_def by (induction evs arbitrary: st) (simp_all add: failures_step)

section \<open>Awaiting a promise\<close>

lemma await_run:
  assumes "await pf p st evs = (r, st', evs')"
  shows "\<exists>used. evs = used @ evs' \<and> st' = run pf used st \<and> (r = None \<longrightarrow> evs' = [])"
  using assms
proof (induction evs arbitrary: st)
  case Nil
  then show ?case by (simp add: run_def)
next
  case (Cons e es)
  show ?case
  proof (cases "crashed st = None \<and> promises st p \<noteq> None")
    case True
    then have "r = promises st p" "st' = st" "evs' = e # es"
      using Cons.prems by auto
    then show ?thesis
      using True by (auto simp add: run_def)
  next
    case False
    then have "await pf p (step pf e st) es = (r, st', evs')"
      using Cons.prems by auto
    from Cons.IH [OF this] obtain used where
      "es = used @ evs'" "st' = run pf used (step pf e st)" "r = None \<longrightarrow> evs' = []"
      by blast
    then have "e # es = (e # used) @ evs' \<and> st' = run pf (e # used) st \<and> (r = None \<longrightarrow> evs' = [])"
      by (simp add: run_def)
    then show ?thesis by blast
  qed
qed

lemma await_result:
  assumes "await pf p st evs = (r, st', evs')"
  shows "case r of None \<Rightarrow> crashed st' \<noteq> None \<or> promises st' p = None
         | Some v \<Rightarrow> crashed st' = None \<and> promises st' p = Some v"
  using assms
proof (induction evs arbitrary: st)
  case Nil
  then show ?case by (auto split: option.splits if_splits)
next
  case (Cons e es)
  then show ?case
    by (cases "crashed st = None \<and> promises st p \<noteq> None") (auto split: option.splits)
qed




section \<open>A single-file view without an answer\<close>

lemma file_view_without_arrival:
  assumes "wf st" and "socket_open st"
    and "\<forall>e \<in> set evs. \<not> file_arrives (filePath_of dir filename) e"
  shows "fst (file_view pf dir filename st evs) = None \<or>
         fst (file_view pf dir filename st evs) = Some (Status 504)"
proof -
  define f where "f = fetchFileFromAgent pf dir filename st"
  obtain p where p: "fst f = Inr p"
    using assms(2)
    by (auto simp add: f_def fetchFileFromAgent_def agentSocket_send_def socket_open_def Let_def
        console_log_def emit_action_def split: option.splits ready_state.splits)
  then have ff: "fetchFileFromAgent pf dir filename st = (Inr p, snd f)"
    by (simp add: f_def prod_eq_iff)
  from armed_fetch [OF assms(1) ff]
  have a1: "armed p (filePath_of dir filename) (clock st) (snd f)"
    and p1: "promises (snd f) p = None" and w1: "wf (snd f)"
    by blast+
  define a where "a = await pf p (snd f) evs"
  have aw: "await pf p (snd f) evs = (fst a, fst (snd a), snd (snd a))"
    by (simp add: a_def)
  from await_run [OF aw] obtain used where u: "evs = used @ snd (snd a)"
    "fst (snd a) = run pf used (snd f)"
    by blast
  have "\<forall>e \<in> set used. \<not> file_arrives (filePath_of dir filename) e"
    using assms(3) u(1) by (metis Un_iff set_append)
  from unanswered_run [OF w1 a1 _ this, of pf] p1
  have un: "unanswered p (clock st) (fst (snd a))"
    by (simp add: unanswered_def u(2))
  have "fst a = None \<or> fst a = Some None"
    using await_result [OF aw] un by (cases "fst a") (auto simp add: unanswered_def)
  then show ?thesis
    using assms(2) ff
    by (auto simp add: file_view_def a_def [symmetric] split: prod.splits option.splits)
qed

section \<open>The loop of the archive\<close>

lemma reached_simps [simp]:
  "progress (reached file r z) = progress z @ [(file, r)]"
  "entries (reached file r z) = entries z"
  "finalized (reached file r z) = finalized z"
  by (simp_all add: reached_def)

lemma archive_file_simps [simp]:
  "progress (archive_file file v z) = progress z"
  "entries (archive_file file v z) = entries z @ archived [(file, Resolved p v)]"
  "finalized (archive_file file v z) = finalized z"
  by (simp_all add: archive_file_def split: option.splits)

lemma archived_Cons: "archived (x # xs) = archived [x] @ archived xs"
  by (cases "(x # xs)" rule: archived.cases) simp_all

lemma thrown_Cons: "thrown (x # xs) = thrown [x] @ thrown xs"
  by (cases "(x # xs)" rule: thrown.cases) simp_all

lemma zip_loop_Cons:
  "zip_loop pf dir (file # files) z st evs =
     (let st0 = console_log (Fetching_for_zip file) st;
          f = fetchFileFromAgent pf dir file st0
      in case fst f of
           Inl e \<Rightarrow> zip_loop pf dir files (reached file (Threw e) z)
                      (console_log (Failed_to_fetch file e) (snd f)) evs
         | Inr p \<Rightarrow>
             (let a = await pf p (snd f) evs
              in case fst a of
                   None \<Rightarrow> (reached file (Pending p) z, fst (snd a))
                 | Some v \<Rightarrow>
                     zip_loop pf dir files (reached file (Resolved p v) (archive_file file v z))
                       (fst (snd a)) (snd (snd a))))"
  by (simp add: Let_def split: prod.splits sum.splits option.splits)

lemma zip_loop_structure:
  assumes "zip_loop pf dir files z st evs = (z', st')"
  shows "\<exists>new. progress z' = progress z @ new \<and>
           entries z' = entries z @ archived new \<and>
           failures (trace st') = failures (trace st) @ thrown new \<and>
           map fst new = take (length new) files \<and>
           list_all (\<lambda>x. settled (snd x)) (butlast new) \<and>
           (finalized z' \<longleftrightarrow> finalized z \<or> (length new = length files \<and> list_all (\<lambda>x. settled (snd x)) new)) \<and>
           (\<forall>f p. new \<noteq> [] \<and> last new = (f, Pending p) \<longrightarrow>
              crashed st' \<noteq> None \<or> promises st' p = None)"
  using assms
proof (induction files arbitrary: z st evs)
  case Nil
  then show ?case by auto
next
  case (Cons entry rest)
  define st0 where "st0 = console_log (Fetching_for_zip entry) st"
  define f where "f = fetchFileFromAgent pf dir entry st0"
  have f0: "failures (trace (snd f)) = failures (trace st)"
    by (simp add: f_def failures_fetch st0_def console_log_def emit_action_def failures_append)
  show ?case
  proof (cases "fst f")
    case (Inl e)
    define z1 where "z1 = reached entry (Threw e) z"
    define st1 where "st1 = console_log (Failed_to_fetch entry e) (snd f)"
    have "zip_loop pf dir rest z1 st1 evs = (z', st')"
      using Cons.prems Inl
      by (simp only: zip_loop_Cons Let_def st0_def [symmetric] f_def [symmetric]
          z1_def [symmetric] st1_def [symmetric] sum.case)
    from Cons.IH [OF this] obtain new where n:
      "progress z' = progress z1 @ new"
      "entries z' = entries z1 @ archived new"
      "failures (trace st') = failures (trace st1) @ thrown new"
      "map fst new = take (length new) rest"
      "list_all (\<lambda>x. settled (snd x)) (butlast new)"
      "finalized z' \<longleftrightarrow> finalized z1 \<or> (length new = length rest \<and> list_all (\<lambda>x. settled (snd x)) new)"
      "\<forall>f p. new \<noteq> [] \<and> last new = (f, Pending p) \<longrightarrow> crashed st' \<noteq> None \<or> promises st' p = None"
      by blast
    have f1: "failures (trace st1) = failures (trace st) @ [(entry, e)]"
      by (simp add: st1_def console_log_def emit_action_def failures_append f0)
    let ?new = "(entry, Threw e) # new"
    have "progress z' = progress z @ ?new" "entries z' = entries z @ archived ?new"
      "failures (trace st') = failures (trace st) @ thrown ?new"
      "map fst ?new = take (length ?new) (entry # rest)"
      "list_all (\<lambda>x. settled (snd x)) (butlast ?new)"
      "finalized z' \<longleftrightarrow>
         finalized z \<or> (length ?new = length (entry # rest) \<and> list_all (\<lambda>x. settled (snd x)) ?new)"
      "\<forall>f p. ?new \<noteq> [] \<and> last ?new = (f, Pending p) \<longrightarrow>
         crashed st' \<noteq> None \<or> promises st' p = None"
      using n f1 by (auto simp add: z1_def)
    then show ?thesis by blast
  next
    case (Inr p)
    define a where "a = await pf p (snd f) evs"
    show ?thesis
    proof (cases "fst a")
      case None
      then have r: "z' = reached entry (Pending p) z" "st' = fst (snd a)"
        using Cons.prems Inr
        by (simp_all only: zip_loop_Cons Let_def st0_def [symmetric] f_def [symmetric]
            a_def [symmetric] sum.case option.case prod.inject)
      have aw: "await pf p (snd f) evs = (None, st', snd (snd a))"
        using None r(2) by (simp add: a_def [symmetric] prod_eq_iff)
      from await_run [OF aw] have "failures (trace st') = failures (trace st)"
        using f0 by (auto simp add: failures_run)
      moreover from await_result [OF aw] have "crashed st' \<noteq> None \<or> promises st' p = None"
        by simp
      ultimately have "progress z' = progress z @ [(entry, Pending p)] \<and>
           entries z' = entries z @ archived [(entry, Pending p)] \<and>
           failures (trace st') = failures (trace st) @ thrown [(entry, Pending p)] \<and>
           map fst [(entry, Pending p)] = take (length [(entry, Pending p)]) (entry # rest) \<and>
           list_all (\<lambda>x. settled (snd x)) (butlast [(entry, Pending p)]) \<and>
           (finalized z' \<longleftrightarrow> finalized z \<or>
              (length [(entry, Pending p)] = length (entry # rest) \<and>
               list_all (\<lambda>x. settled (snd x)) [(entry, Pending p)])) \<and>
           (\<forall>f q. [(entry, Pending p)] \<noteq> [] \<and> last [(entry, Pending p)] = (f, Pending q) \<longrightarrow>
              crashed st' \<noteq> None \<or> promises st' q = None)"
        using r(1) by simp
      then show ?thesis by blast
    next
      case (Some v)
      define z1 where "z1 = reached entry (Resolved p v) (archive_file entry v z)"
      define st1 where "st1 = fst (snd a)"
      have "zip_loop pf dir rest z1 st1 (snd (snd a)) = (z', st')"
        using Cons.prems Inr Some
        by (simp only: zip_loop_Cons Let_def st0_def [symmetric] f_def [symmetric]
            a_def [symmetric] z1_def [symmetric] st1_def [symmetric] sum.case option.case)
      from Cons.IH [OF this] obtain new where n:
        "progress z' = progress z1 @ new"
        "entries z' = entries z1 @ archived new"
        "failures (trace st') = failures (trace st1) @ thrown new"
        "map fst new = take (length new) rest"
        "list_all (\<lambda>x. settled (snd x)) (butlast new)"
        "finalized z' \<longleftrightarrow> finalized z1 \<or> (length new = length rest \<and> list_all (\<lambda>x. settled (snd x)) new)"
        "\<forall>f p. new \<noteq> [] \<and> last new = (f, Pending p) \<longrightarrow> crashed st' \<noteq> None \<or> promises st' p = None"
        by blast
      have aw: "await pf p (snd f) evs = (Some v, st1, snd (snd a))"
        using Some by (simp add: a_def [symmetric] st1_def prod_eq_iff)
      from await_run [OF aw] have f1: "failures (trace st1) = failures (trace st)"
        using f0 by (auto simp add: failures_run)
      let ?new = "(entry, Resolved p v) # new"
      have e: "entries z1 = entries z @ archived [(entry, Resolved p v)]"
        by (simp add: z1_def)
      have "progress z' = progress z @ ?new"
        "entries z' = entries z @ archived ?new"
        "failures (trace st') = failures (trace st) @ thrown ?new"
        "map fst ?new = take (length ?new) (entry # rest)"
        "list_all (\<lambda>x. settled (snd x)) (butlast ?new)"
        "finalized z' \<longleftrightarrow>
           finalized z \<or> (length ?new = length (entry # rest) \<and> list_all (\<lambda>x. settled (snd x)) ?new)"
        "\<forall>f p. ?new \<noteq> [] \<and> last ?new = (f, Pending p) \<longrightarrow>
           crashed st' \<noteq> None \<or> promises st' p = None"
        using n f1 e archived_Cons [of "(entry, Resolved p v)" new]
        by (auto simp add: z1_def simp del: archived.simps)
      then show ?thesis by blast
    qed
  qed
qed

lemma wf_console_log: "wf st \<Longrightarrow> wf (console_log l st)"
  by (simp add: wf_def console_log_def emit_action_def)

lemma await_Nil_state: "fst (snd (await pf p st [])) = st"
  by simp



lemma fetch_trace:
  assumes "fetchFileFromAgent pf dir entry st = (r, st1)"
  shows "case r of
           Inl e \<Rightarrow> trace st1 = trace st @ [Console (Requesting_file (filePath_of dir entry))]
         | Inr p \<Rightarrow>
             (\<exists>s. trace st1 =
                    trace st @ [Console (Requesting_file (filePath_of dir entry))] @ s @ [Listen p] \<and>
                  (s = [] \<or> s = [Send (Request_file (filePath_of dir entry))]))"
  using assms
  by (auto simp add: fetchFileFromAgent_def agentSocket_send_def console_log_def emit_action_def
      on_def setTimeout_def Let_def
      split: option.splits ready_state.splits sum.splits if_splits)

lemma await_extends:
  assumes "wf st" and "await pf p st evs = (r, st', evs')"
  shows "extends st st'"
proof -
  from await_run [OF assms(2)] obtain used where "st' = run pf used st"
    by blast
  then show ?thesis
    using assms(1) by (simp add: extends_run)
qed

lemma zip_loop_order:
  assumes "wf st" and "zip_loop pf dir files z st evs = (z', st')"
  shows "\<exists>new acts. progress z' = progress z @ new \<and> trace st' = trace st @ acts \<and>
           (\<forall>pre y post q. new = pre @ [y] @ post \<and> fetch_id (snd y) = Some q \<longrightarrow>
              (\<exists>h s h'. acts = h @ [Console (Requesting_file (filePath_of dir (fst y)))] @ s @
                                [Listen q] @ h' \<and>
                 (s = [] \<or> s = [Send (Request_file (filePath_of dir (fst y)))]) \<and>
                 (\<forall>x \<in> set pre. \<exists>a. resolution x = Some a \<and> a \<in> set h)))"
  using assms
proof (induction files arbitrary: z st evs z' st')
  case Nil
  then show ?case by auto
next
  case (Cons entry rest)
  define P where "P = filePath_of dir entry"
  define st0 where "st0 = console_log (Fetching_for_zip entry) st"
  define f where "f = fetchFileFromAgent pf dir entry st0"
  have w0: "wf st0"
    using Cons.prems(1) by (simp add: st0_def wf_console_log)
  have wf: "wf (snd f)"
    using w0 by (simp add: f_def wf_fetch)
  have t0: "trace st0 = trace st @ [Console (Fetching_for_zip entry)]"
    by (simp add: st0_def console_log_def emit_action_def)
  have ff: "fetchFileFromAgent pf dir entry st0 = (fst f, snd f)"
    by (simp add: f_def)
  note unfold = zip_loop_Cons Let_def st0_def [symmetric] f_def [symmetric]
  \<comment> \<open>how the statement for the rest of the listing gives the statement for the listing\<close>
  have combine:
    "\<exists>new acts. progress z' = progress z @ new \<and> trace st' = trace st @ acts \<and>
       (\<forall>pre y post q. new = pre @ [y] @ post \<and> fetch_id (snd y) = Some q \<longrightarrow>
          (\<exists>h s h'. acts = h @ [Console (Requesting_file (filePath_of dir (fst y)))] @ s @
                            [Listen q] @ h' \<and>
             (s = [] \<or> s = [Send (Request_file (filePath_of dir (fst y)))]) \<and>
             (\<forall>x \<in> set pre. \<exists>a. resolution x = Some a \<and> a \<in> set h)))"
    if head: "progress z1 = progress z @ [(entry, x0)]" "trace st1 = trace st @ acts0"
      and res: "\<exists>a. resolution (entry, x0) = Some a \<and> a \<in> set acts0"
      and blk: "\<forall>q. fetch_id x0 = Some q \<longrightarrow>
                 (\<exists>h s h'. acts0 = h @ [Console (Requesting_file P)] @ s @ [Listen q] @ h' \<and>
                    (s = [] \<or> s = [Send (Request_file P)]))"
      and tail: "\<exists>new acts. progress z' = progress z1 @ new \<and> trace st' = trace st1 @ acts \<and>
           (\<forall>pre y post q. new = pre @ [y] @ post \<and> fetch_id (snd y) = Some q \<longrightarrow>
              (\<exists>h s h'. acts = h @ [Console (Requesting_file (filePath_of dir (fst y)))] @ s @
                                [Listen q] @ h' \<and>
                 (s = [] \<or> s = [Send (Request_file (filePath_of dir (fst y)))]) \<and>
                 (\<forall>x \<in> set pre. \<exists>a. resolution x = Some a \<and> a \<in> set h)))"
    for z1 :: zip and st1 :: server and x0 acts0
  proof -
    from tail obtain new acts where n: "progress z' = progress z1 @ new"
      "trace st' = trace st1 @ acts"
      and o: "\<And>pre y post q. new = pre @ [y] @ post \<Longrightarrow> fetch_id (snd y) = Some q \<Longrightarrow>
              (\<exists>h s h'. acts = h @ [Console (Requesting_file (filePath_of dir (fst y)))] @ s @
                                [Listen q] @ h' \<and>
                 (s = [] \<or> s = [Send (Request_file (filePath_of dir (fst y)))]) \<and>
                 (\<forall>x \<in> set pre. \<exists>a. resolution x = Some a \<and> a \<in> set h))"
      by blast
    let ?new = "(entry, x0) # new"
    let ?acts = "acts0 @ acts"
    have "\<exists>h s h'. ?acts = h @ [Console (Requesting_file (filePath_of dir (fst y)))] @ s @
                                [Listen q] @ h' \<and>
                 (s = [] \<or> s = [Send (Request_file (filePath_of dir (fst y)))]) \<and>
                 (\<forall>x \<in> set pre. \<exists>a. resolution x = Some a \<and> a \<in> set h)"
      if d: "?new = pre @ [y] @ post" and q: "fetch_id (snd y) = Some q" for pre y post q
    proof (cases pre)
      case Nil
      then have y: "y = (entry, x0)"
        using d by simp
      then obtain h s h' where "acts0 = h @ [Console (Requesting_file P)] @ s @ [Listen q] @ h'"
        "s = [] \<or> s = [Send (Request_file P)]"
        using blk q by auto
      then have "?acts = h @ [Console (Requesting_file (filePath_of dir (fst y)))] @ s @
                                [Listen q] @ (h' @ acts) \<and>
                 (s = [] \<or> s = [Send (Request_file (filePath_of dir (fst y)))]) \<and>
                 (\<forall>x \<in> set pre. \<exists>a. resolution x = Some a \<and> a \<in> set h)"
        using y Nil by (simp add: P_def)
      then show ?thesis by blast
    next
      case (Cons x pre1)
      then have x: "x = (entry, x0)" and d1: "new = pre1 @ [y] @ post"
        using d by simp_all
      from o [OF d1 q] obtain h s h' where
        h: "acts = h @ [Console (Requesting_file (filePath_of dir (fst y)))] @ s @ [Listen q] @ h'"
        "s = [] \<or> s = [Send (Request_file (filePath_of dir (fst y)))]"
        "\<forall>x \<in> set pre1. \<exists>a. resolution x = Some a \<and> a \<in> set h"
        by blast
      have "?acts = (acts0 @ h) @ [Console (Requesting_file (filePath_of dir (fst y)))] @ s @
                                [Listen q] @ h' \<and>
                 (s = [] \<or> s = [Send (Request_file (filePath_of dir (fst y)))]) \<and>
                 (\<forall>x \<in> set pre. \<exists>a. resolution x = Some a \<and> a \<in> set (acts0 @ h))"
        using h res x Cons by auto
      then show ?thesis by blast
    qed
    moreover have "progress z' = progress z @ ?new" "trace st' = trace st @ ?acts"
      using n head by simp_all
    ultimately show ?thesis by blast
  qed
  show ?case
  proof (cases "fst f")
    case (Inl e)
    define z1 where "z1 = reached entry (Threw e) z"
    define st1 where "st1 = console_log (Failed_to_fetch entry e) (snd f)"
    have here: "zip_loop pf dir rest z1 st1 evs = (z', st')"
      using Cons.prems(2) Inl
      by (simp only: unfold z1_def [symmetric] st1_def [symmetric] sum.case)
    have w1: "wf st1"
      using wf by (simp add: st1_def wf_console_log)
    have "trace (snd f) = trace st0 @ [Console (Requesting_file P)]"
      using fetch_trace [OF ff] Inl by (simp add: P_def)
    then have t1: "trace st1 = trace st @ [Console (Fetching_for_zip entry),
        Console (Requesting_file P), Console (Failed_to_fetch entry e)]"
      using t0 by (simp add: st1_def console_log_def emit_action_def)
    show ?thesis
      by (rule combine [of z1 "Threw e" st1, OF _ t1 _ _ Cons.IH [OF w1 here]])
         (simp_all add: z1_def)
  next
    case (Inr p)
    from fetch_trace [OF ff] Inr obtain s where
      tf: "trace (snd f) = trace st0 @ [Console (Requesting_file P)] @ s @ [Listen p]"
      and s: "s = [] \<or> s = [Send (Request_file P)]"
      by (auto simp add: P_def)
    have fa: "fetchFileFromAgent pf dir entry st0 = (Inr p, snd f)"
      using Inr by (simp add: f_def prod_eq_iff)
    from armed_fetch [OF w0 fa] have pf0: "promises (snd f) p = None"
      by blast
    define a where "a = await pf p (snd f) evs"
    define st1 where "st1 = fst (snd a)"
    have aw: "await pf p (snd f) evs = (fst a, st1, snd (snd a))"
      by (simp add: a_def st1_def)
    from await_extends [OF wf aw] obtain acts1 where
      t1: "trace st1 = trace (snd f) @ acts1"
      and settle: "\<And>v. promises st1 p = Some v \<Longrightarrow> Settle p v \<in> set acts1"
      using pf0 unfolding extends_def by blast
    have w1: "wf st1"
      using await_run [OF aw] wf by (auto simp add: wf_run)
    let ?acts0 = "[Console (Fetching_for_zip entry), Console (Requesting_file P)] @ s @
                  [Listen p] @ acts1"
    have t1': "trace st1 = trace st @ ?acts0"
      using t1 tf t0 by simp
    have blk: "\<exists>h s' h'. ?acts0 = h @ [Console (Requesting_file P)] @ s' @ [Listen p] @ h' \<and>
                    (s' = [] \<or> s' = [Send (Request_file P)])"
    proof -
      have "?acts0 = [Console (Fetching_for_zip entry)] @ [Console (Requesting_file P)] @ s @
                       [Listen p] @ acts1"
        by simp
      then show ?thesis
        using s by blast
    qed
    show ?thesis
    proof (cases "fst a")
      case None
      then have r: "z' = reached entry (Pending p) z" "st' = st1"
        using Cons.prems(2) Inr
        by (simp_all only: unfold a_def [symmetric] st1_def [symmetric] sum.case option.case
            prod.inject)
      have "\<exists>h s h'. ?acts0 = h @ [Console (Requesting_file (filePath_of dir (fst y)))] @ s @
                                [Listen q] @ h' \<and>
                 (s = [] \<or> s = [Send (Request_file (filePath_of dir (fst y)))]) \<and>
                 (\<forall>x \<in> set pre. \<exists>a. resolution x = Some a \<and> a \<in> set h)"
        if d: "[(entry, Pending p)] = pre @ [y] @ post" and q: "fetch_id (snd y) = Some q"
        for pre y post q
      proof -
        have "pre = []" "y = (entry, Pending p)"
          using d by (simp_all add: Cons_eq_append_conv)
        then show ?thesis
          using blk q by (auto simp add: P_def)
      qed
      moreover have "progress z' = progress z @ [(entry, Pending p)]" "trace st' = trace st @ ?acts0"
        using r t1' by simp_all
      ultimately show ?thesis by blast
    next
      case (Some v)
      define z1 where "z1 = reached entry (Resolved p v) (archive_file entry v z)"
      have here: "zip_loop pf dir rest z1 st1 (snd (snd a)) = (z', st')"
        using Cons.prems(2) Inr Some
        by (simp only: unfold a_def [symmetric] st1_def [symmetric] z1_def [symmetric]
            sum.case option.case)
      have "promises st1 p = Some v"
        using await_result [OF aw] Some by simp
      then have res: "\<exists>a. resolution (entry, Resolved p v) = Some a \<and> a \<in> set ?acts0"
        using settle by simp
      have blk': "\<forall>q. fetch_id (Resolved p v) = Some q \<longrightarrow>
                 (\<exists>h s' h'. ?acts0 = h @ [Console (Requesting_file P)] @ s' @ [Listen q] @ h' \<and>
                    (s' = [] \<or> s' = [Send (Request_file P)]))"
        using blk by simp
      show ?thesis
        by (rule combine [of z1 "Resolved p v" st1, OF _ t1' res blk' Cons.IH [OF w1 here]])
           (simp add: z1_def)
    qed
  qed
qed

section \<open>Every listener is registered once\<close>

lemma listens_append: "listens (a @ b) = listens a @ listens b"
  by (induction a rule: listens.induct) simp_all

lemma listens_handler [simp]: "listens (trace (handler w fd st)) = listens (trace st)"
  by (simp add: handler_def resolve_def off_def clearTimeout_def console_log_def
      emit_action_def listens_append split: option.splits)

lemma listens_handlers [simp]:
  "listens (trace (fold (\<lambda>w. handler w fd) ws st)) = listens (trace st)"
  by (induction ws arbitrary: st) simp_all

lemma listens_emit_file [simp]: "listens (trace (emit_file fd st)) = listens (trace st)"
  by (simp add: emit_file_def)

lemma listens_on_message [simp]:
  "listens (trace (snd (on_message pf m st))) = listens (trace st)"
  by (auto simp add: on_message_cases on_file_def on_dir_list_def fs_writeFileSync_def Let_def
      console_log_def emit_action_def listens_append
      split: ws_message.splits option.splits)

lemma listens_deliver [simp]: "listens (trace (deliver pf ms st)) = listens (trace st)"
proof (induction ms arbitrary: st)
  case Nil
  then show ?case by simp
next
  case (Cons m ms)
  have "listens (trace (snd (on_message pf m st))) = listens (trace st)"
    by simp
  then show ?case
    using Cons.IH [of "snd (on_message pf m st)"]
    by (cases "on_message pf m st") (auto split: option.splits)
qed

lemma listens_timer_fires [simp]: "listens (trace (timer_fires t st)) = listens (trace st)"
  by (auto simp add: timer_fires_def resolve_def off_def clearTimeout_def emit_action_def Let_def
      listens_append split: option.splits timer_kind.splits)

lemma registered_once_console_log: "registered_once st \<Longrightarrow> registered_once (console_log l st)"
  by (simp add: registered_once_def console_log_def emit_action_def listens_append)

lemma registered_once_fetch:
  "registered_once st \<Longrightarrow> registered_once (snd (fetchFileFromAgent pf dir filename st))"
  by (auto simp add: registered_once_def fetchFileFromAgent_def agentSocket_send_def
      console_log_def emit_action_def on_def setTimeout_def Let_def listens_append less_Suc_eq
      split: option.splits ready_state.splits sum.splits)

lemma registered_once_step: "registered_once st \<Longrightarrow> registered_once (step pf e st)"
proof (cases e)
  case (Other_fetch d f)
  assume "registered_once st"
  then show ?thesis
    using Other_fetch by (simp add: step_def turn_def registered_once_fetch)
qed (auto simp add: registered_once_def step_def turn_def request_dir_def agentSocket_send_def
      console_log_def emit_action_def sendFile_callback_def fs_unlinkSync_def sleep_def
      setTimeout_def Let_def listens_append less_Suc_eq
      split: option.splits ready_state.splits sum.splits)

lemma registered_once_run: "registered_once st \<Longrightarrow> registered_once (run pf evs st)"
  unfolding run_def by (induction evs arbitrary: st) (simp_all add: registered_once_step)

lemma registered_once_zip_loop:
  assumes "registered_once st" and "zip_loop pf dir files z st evs = (z', st')"
  shows "registered_once st'"
  using assms
proof (induction files arbitrary: z st evs z' st')
  case Nil
  then show ?case by auto
next
  case (Cons entry rest)
  define st0 where "st0 = console_log (Fetching_for_zip entry) st"
  define f where "f = fetchFileFromAgent pf dir entry st0"
  have r: "registered_once (snd f)"
    using Cons.prems(1) by (simp add: f_def st0_def registered_once_fetch registered_once_console_log)
  note unfold = zip_loop_Cons Let_def st0_def [symmetric] f_def [symmetric]
  show ?case
  proof (cases "fst f")
    case (Inl e)
    define st1 where "st1 = console_log (Failed_to_fetch entry e) (snd f)"
    have "zip_loop pf dir rest (reached entry (Threw e) z) st1 evs = (z', st')"
      using Cons.prems(2) Inl by (simp only: unfold st1_def [symmetric] sum.case)
    moreover have "registered_once st1"
      using r by (simp add: st1_def registered_once_console_log)
    ultimately show ?thesis
      using Cons.IH by blast
  next
    case (Inr p)
    define a where "a = await pf p (snd f) evs"
    define st1 where "st1 = fst (snd a)"
    have aw: "await pf p (snd f) evs = (fst a, st1, snd (snd a))"
      by (simp add: a_def st1_def)
    have r1: "registered_once st1"
      using await_run [OF aw] r by (auto simp add: registered_once_run)
    show ?thesis
    proof (cases "fst a")
      case None
      then have "st' = st1"
        using Cons.prems(2) Inr
        by (simp only: unfold a_def [symmetric] st1_def [symmetric] sum.case option.case
            prod.inject)
      then show ?thesis
        using r1 by simp
    next
      case (Some v)
      have "zip_loop pf dir rest (reached entry (Resolved p v) (archive_file entry v z)) st1
              (snd (snd a)) = (z', st')"
        using Cons.prems(2) Inr Some
        by (simp only: unfold a_def [symmetric] st1_def [symmetric] sum.case option.case)
      then show ?thesis
        using Cons.IH r1 by blast
    qed
  qed
qed

lemma registered_once_download_all:
  assumes "registered_once st" and "download_all pf dir st evs = (r, z, st')"
  shows "registered_once st'"
proof (cases "st' = st")
  case True
  then show ?thesis using assms(1) by simp
next
  case False
  then obtain files where
    "zip_loop pf dir files \<lparr>entries = [], progress = [], finalized = False\<rparr>
       (console_log (Starting_zip (length files) dir) st) evs = (z, st')"
    using assms(2)
    by (auto simp add: download_all_def Let_def split: if_splits option.splits prod.splits)
  then show ?thesis
    using registered_once_zip_loop registered_once_console_log [OF assms(1)] by blast
qed

section \<open>The claims\<close>

subsection \<open>C1: which arrivals resolve a waiter\<close>



subsection \<open>C2: the fetches of an archive run one at a time\<close>

text \<open>
  C2. In one run of \<open>GET /download-all/:dir\<close>, of the listing entries the loop has reached
  only the last can have a pending fetch. Every listener is registered once in the whole
  trace, so the registration of a listener names one call. For every entry whose call of
  \<open>fetchFileFromAgent\<close> returned a promise, the part of the trace written by this run
  holds the call (its line on the console, the \<open>request_file\<close> command unless the socket
  dropped it, the registration of its listener), and before the call it holds, for every
  earlier entry, how that entry's fetch ended: the settlement of its promise, or the line
  about the exception it threw. So no request is sent while an earlier fetch of the run is
  unresolved.
\<close>

theorem archive_fetches_one_at_a_time:
  assumes "wf st" and "registered_once st" and "download_all pf dir st evs = (r, z, st')"
  shows "list_all (\<lambda>x. settled (snd x)) (butlast (progress z)) \<and>
         distinct (listens (trace st')) \<and>
         (\<forall>pre y post q. progress z = pre @ [y] @ post \<and> fetch_id (snd y) = Some q \<longrightarrow>
            (\<exists>h s h'. trace st' =
                         trace st @ h @ [Console (Requesting_file (filePath_of dir (fst y)))] @ s @
                           [Listen q] @ h' \<and>
               (s = [] \<or> s = [Send (Request_file (filePath_of dir (fst y)))]) \<and>
               (\<forall>x \<in> set pre. \<exists>a. resolution x = Some a \<and> a \<in> set h)))"
proof (cases "progress z = []")
  case True
  then show ?thesis
    using registered_once_download_all [OF assms(2,3)] by (simp add: registered_once_def)
next
  case False
  define z0 where "z0 = \<lparr>entries = [], progress = [], finalized = False\<rparr>"
  obtain files where files: "tempDirFiles st dir = Some files"
    and zl: "zip_loop pf dir files z0 (console_log (Starting_zip (length files) dir) st) evs = (z, st')"
    using assms(3) False
    by (auto simp add: download_all_def Let_def z0_def split: if_splits option.splits prod.splits)
  define st0 where "st0 = console_log (Starting_zip (length files) dir) st"
  have w0: "wf st0"
    using assms(1) by (simp add: st0_def wf_console_log)
  have t0: "trace st0 = trace st @ [Console (Starting_zip (length files) dir)]"
    by (simp add: st0_def console_log_def emit_action_def)
  from zip_loop_structure [OF zl] have one: "list_all (\<lambda>x. settled (snd x)) (butlast (progress z))"
    by (auto simp add: z0_def)
  from zip_loop_order [OF w0 zl [folded st0_def]] obtain acts where
    t: "trace st' = trace st0 @ acts"
    and o: "\<And>pre y post q. progress z = pre @ [y] @ post \<Longrightarrow> fetch_id (snd y) = Some q \<Longrightarrow>
              (\<exists>h s h'. acts = h @ [Console (Requesting_file (filePath_of dir (fst y)))] @ s @
                                [Listen q] @ h' \<and>
                 (s = [] \<or> s = [Send (Request_file (filePath_of dir (fst y)))]) \<and>
                 (\<forall>x \<in> set pre. \<exists>a. resolution x = Some a \<and> a \<in> set h))"
    by (auto simp add: z0_def)
  have "\<exists>h s h'. trace st' =
                         trace st @ h @ [Console (Requesting_file (filePath_of dir (fst y)))] @ s @
                           [Listen q] @ h' \<and>
               (s = [] \<or> s = [Send (Request_file (filePath_of dir (fst y)))]) \<and>
               (\<forall>x \<in> set pre. \<exists>a. resolution x = Some a \<and> a \<in> set h)"
    if "progress z = pre @ [y] @ post" "fetch_id (snd y) = Some q" for pre y post q
  proof -
    from o [OF that] obtain h s h' where
      h: "acts = h @ [Console (Requesting_file (filePath_of dir (fst y)))] @ s @ [Listen q] @ h'"
      "s = [] \<or> s = [Send (Request_file (filePath_of dir (fst y)))]"
      "\<forall>x \<in> set pre. \<exists>a. resolution x = Some a \<and> a \<in> set h"
      by blast
    have "trace st' = trace st @ (Console (Starting_zip (length files) dir) # h) @
            [Console (Requesting_file (filePath_of dir (fst y)))] @ s @ [Listen q] @ h' \<and>
          (s = [] \<or> s = [Send (Request_file (filePath_of dir (fst y)))]) \<and>
          (\<forall>x \<in> set pre. \<exists>a. resolution x = Some a \<and>
              a \<in> set (Console (Starting_zip (length files) dir) # h))"
      using t t0 h by auto
    then show ?thesis by blast
  qed
  moreover have "distinct (listens (trace st'))"
    using registered_once_download_all [OF assms(2,3)] by (simp add: registered_once_def)
  ultimately show ?thesis
    using one by blast
qed

theorem archive_fetches_one_at_a_time_witness:
  "wf listed \<and> registered_once listed \<and>
   progress (fst (snd (download_all example_platform ''/sdcard/dl'' listed three_files))) =
     [(''a.jpg'', Resolved 0 (Some ''/srv/uploads/_sdcard_dl_a.jpg''))] @
     [(''b.jpg'', Resolved 1 None)] @
     [(''c.jpg'', Resolved 2 (Some ''/srv/uploads/_sdcard_dl_c.jpg''))] \<and>
   fetch_id (snd (''b.jpg'', Resolved 1 None)) = Some 1 \<and>
   (\<exists>h s h'. trace (snd (snd (download_all example_platform ''/sdcard/dl'' listed three_files))) =
               trace listed @ h @ [Console (Requesting_file ''/sdcard/dl/b.jpg'')] @ s @
                 [Listen 1] @ h' \<and>
             Settle 0 (Some ''/srv/uploads/_sdcard_dl_a.jpg'') \<in> set h)"
proof -
  let ?d = "download_all example_platform ''/sdcard/dl'' listed three_files"
  let ?a = "(''a.jpg'', Resolved 0 (Some ''/srv/uploads/_sdcard_dl_a.jpg''))"
  let ?b = "(''b.jpg'', Resolved 1 None)"
  let ?c = "(''c.jpg'', Resolved 2 (Some ''/srv/uploads/_sdcard_dl_c.jpg''))"
  have d: "?d = (fst ?d, fst (snd ?d), snd (snd ?d))"
    by simp
  have p: "progress (fst (snd ?d)) = [?a] @ [?b] @ [?c]"
    by (subst three_files_run) simp
  have q: "fetch_id (snd ?b) = Some 1"
    by simp
  have fp: "filePath_of ''/sdcard/dl'' (fst ?b) = ''/sdcard/dl/b.jpg''"
    by (simp add: match_defs is_separator_def slash_def backslash_def)
  have ro: "registered_once listed"
    by (simp add: registered_once_def run_defs)
  from archive_fetches_one_at_a_time [OF wf_listed ro d, THEN conjunct2, THEN conjunct2,
      rule_format, OF conjI [OF p q]]
  obtain h s h' where
    "trace (snd (snd ?d)) =
       trace listed @ h @ [Console (Requesting_file ''/sdcard/dl/b.jpg'')] @ s @ [Listen 1] @ h'"
    "\<forall>x \<in> set [?a]. \<exists>a. resolution x = Some a \<and> a \<in> set h"
    unfolding fp by blast
  then have "trace (snd (snd ?d)) =
       trace listed @ h @ [Console (Requesting_file ''/sdcard/dl/b.jpg'')] @ s @ [Listen 1] @ h' \<and>
     Settle 0 (Some ''/srv/uploads/_sdcard_dl_a.jpg'') \<in> set h"
    by simp
  then show ?thesis
    using wf_listed ro p q by blast
qed

subsection \<open>C3: a failed fetch does not end the archive\<close>




subsection \<open>C4: a cached listing\<close>

text \<open>
  C4, as the claim states it, fails: a cached listing is not returned when no agent is
  connected. After the agent has pushed the listing of \<open>/sdcard/dl\<close> and disconnected,
  \<open>GET /files/:dir\<close> answers 503.
\<close>

theorem cached_listing_not_returned_without_agent:
  "tempDirFiles listed_then_closed ''/sdcard/dl'' = Some [''a.jpg'', ''b.jpg'', ''c.jpg''] \<and>
   fst (get_files example_platform ''/sdcard/dl'' listed_then_closed []) = Some (Status 503)"
  by code_simp

text \<open>
  C4, amended. For every directory with a cached listing that is not empty,
  \<open>GET /files/:dir\<close> answers at once, whatever happens afterwards, and leaves the state as it
  is, so it sends no command: with an open agent socket the answer is the stored listing
  in its stored order, and without one it is 503.
\<close>

theorem cached_listing_returned_at_once:
  assumes "tempDirFiles st d = Some files" and "files \<noteq> []"
  shows "get_files pf d st evs =
           (Some (if socket_open st then Json_files files else Status 503), st)"
  using assms by (simp add: get_files_def no_listing_def files_response_def)

theorem cached_listing_returned_at_once_witness:
  "tempDirFiles listed ''/sdcard/dl'' = Some [''a.jpg'', ''b.jpg'', ''c.jpg''] \<and>
   [''a.jpg'', ''b.jpg'', ''c.jpg''] \<noteq> [] \<and> socket_open listed \<and>
   get_files example_platform ''/sdcard/dl'' listed [Agent_closes] =
     (Some (Json_files [''a.jpg'', ''b.jpg'', ''c.jpg'']), listed)"
proof -
  have 1: "tempDirFiles listed ''/sdcard/dl'' = Some [''a.jpg'', ''b.jpg'', ''c.jpg'']"
    by code_simp
  have 2: "[''a.jpg'', ''b.jpg'', ''c.jpg''] \<noteq> []"
    by simp
  have 3: "socket_open listed"
    by code_simp
  show ?thesis
    using cached_listing_returned_at_once [OF 1 2, of example_platform "[Agent_closes]"] 1 3
    by simp
qed

subsection \<open>C5: malformed messages\<close>




subsection \<open>C6: the timeout of a fetch\<close>

text \<open>
  C6. A call of \<open>fetchFileFromAgent\<close> that has registered its waiter, followed by any
  turns of the event loop in which no arrival matches its path: the promise is either
  pending or was settled with \<open>null\<close>, and then not before 60000 ms after the call. Once
  the promise is settled, the waiter is no longer among the listeners and its timer is
  gone. While the promise is pending and the process is alive, the timer does nothing
  before the deadline, and from the deadline on its firing settles the promise with
  \<open>null\<close> and removes the waiter. A second fetch issued after the timeout is resolved by an
  arrival that matches it, and the first promise stays \<open>null\<close>.
\<close>

theorem fetch_times_out_after_deadline:
  assumes "wf st" and "fetchFileFromAgent pf dir filename st = (Inr p, st1)"
    and "\<forall>e \<in> set evs. \<not> file_arrives (filePath_of dir filename) e"
  shows "let st2 = run pf evs st1; st3 = step pf (Timer_fires p) st2
         in (promises st2 p = None \<or>
               (promises st2 p = Some None \<and> clock st + 60000 \<le> clock st2)) \<and>
            (promises st2 p \<noteq> None \<longrightarrow>
               p \<notin> wid ` set (fileEvents st2) \<and> timers st2 p = None) \<and>
            (promises st2 p = None \<and> crashed st2 = None \<longrightarrow>
               (clock st2 < clock st + 60000 \<longrightarrow> st3 = st2) \<and>
               (clock st + 60000 \<le> clock st2 \<longrightarrow>
                  promises st3 p = Some None \<and> p \<notin> wid ` set (fileEvents st3) \<and>
                  timers st3 p = None)) \<and>
            (\<forall>dir' filename' q st4 fd.
               promises st2 p \<noteq> None \<and>
               fetchFileFromAgent pf dir' filename' st2 = (Inr q, st4) \<and>
               loose_match (filePath_of dir' filename') (path fd) \<longrightarrow>
                 promises (emit_file fd st4) q = Some (Some (savePath fd)) \<and>
                 promises (emit_file fd st4) p = Some None)"
proof -
  define fp where "fp = filePath_of dir filename"
  define st2 where "st2 = run pf evs st1"
  define st3 where "st3 = step pf (Timer_fires p) st2"
  from armed_fetch [OF assms(1,2)]
  have a1: "armed p fp (clock st) st1" and p1: "promises st1 p = None" and w1: "wf st1"
    unfolding fp_def by blast+
  have u1: "unanswered p (clock st) st1"
    using p1 by (simp add: unanswered_def)
  have w2: "wf st2" and a2: "armed p fp (clock st) st2"
    unfolding st2_def using w1 a1 by (simp_all add: wf_run armed_run)
  have u2: "unanswered p (clock st) st2"
    unfolding st2_def using unanswered_run [OF w1 a1 u1] assms(3) by (simp add: fp_def)
  have c1: "promises st2 p = None \<or> (promises st2 p = Some None \<and> clock st + 60000 \<le> clock st2)"
    using u2 by (simp add: unanswered_def)
  have c2: "p \<notin> wid ` set (fileEvents st2) \<and> timers st2 p = None" if "promises st2 p \<noteq> None"
    using a2 that by (simp add: armed_def)
  have c3: "st3 = st2" if "promises st2 p = None" "crashed st2 = None" "clock st2 < clock st + 60000"
    using timeout_not_due [OF a2 that(1,3)] that(2) by (simp add: st3_def step_def turn_def)
  have c4: "promises st3 p = Some None \<and> p \<notin> wid ` set (fileEvents st3) \<and> timers st3 p = None"
    if "promises st2 p = None" "crashed st2 = None" "clock st + 60000 \<le> clock st2"
    using timeout_fires [OF a2 that(1,3)] that(2) by (simp add: st3_def step_def turn_def)
  have c5: "promises (emit_file fd st4) q = Some (Some (savePath fd)) \<and>
            promises (emit_file fd st4) p = Some None"
    if "promises st2 p \<noteq> None" "fetchFileFromAgent pf dir' filename' st2 = (Inr q, st4)"
      "loose_match (filePath_of dir' filename') (path fd)" for dir' filename' q st4 fd
  proof -
    from armed_fetch [OF w2 that(2)]
    have a4: "armed q (filePath_of dir' filename') (clock st2) st4" and p4: "promises st4 q = None"
      and q: "q = next_id st2"
      by blast+
    have "p \<noteq> next_id st2"
      using a2 by (simp add: armed_def)
    then have "promises st4 p = promises st2 p"
      using fetch_promises_other [of p st2 pf dir' filename'] that(2) by simp
    then have old: "promises st4 p = Some None"
      using c1 that(1) by simp
    have "\<lparr>wid = q, filePath = filePath_of dir' filename'\<rparr> \<in> set (fileEvents st4)"
      using a4 p4 by (simp add: armed_def)
    then have "\<exists>w \<in> set (fileEvents st4). wid w = q \<and> matching fd w"
      using that(3) by (force simp add: matching_def)
    then show ?thesis
      using p4 old by (simp add: emit_file_promises)
  qed
  show ?thesis
    unfolding Let_def st2_def [symmetric] st3_def [symmetric]
    using c1 c2 c3 c4 c5 by blast
qed

theorem fetch_times_out_after_deadline_witness:
  "wf connected \<and>
   fst (fetchFileFromAgent example_platform ''/sdcard/dl'' ''a.jpg'' connected) = Inr 0 \<and>
   \<not> file_arrives (filePath_of ''/sdcard/dl'' ''a.jpg'')
       (Agent_messages [file_message ''/other/b.png'' ''QUJD'']) \<and>
   \<not> file_arrives (filePath_of ''/sdcard/dl'' ''a.jpg'') (Time_passes 60000) \<and>
   promises (run example_platform
               [Agent_messages [file_message ''/other/b.png'' ''QUJD''], Time_passes 60000]
               (snd (fetchFileFromAgent example_platform ''/sdcard/dl'' ''a.jpg'' connected)))
     0 = None \<and>
   promises (run example_platform
               [Agent_messages [file_message ''/other/b.png'' ''QUJD''], Time_passes 60000,
                Timer_fires 0]
               (snd (fetchFileFromAgent example_platform ''/sdcard/dl'' ''a.jpg'' connected)))
     0 = Some None \<and>
   promises (emit_file \<lparr>path = ''/sdcard/dl/b.jpg'', savePath = ''/srv/uploads/_sdcard_dl_b.jpg''\<rparr>
               (snd (fetchFileFromAgent example_platform ''/sdcard/dl'' ''b.jpg''
                  (run example_platform
                     [Agent_messages [file_message ''/other/b.png'' ''QUJD''], Time_passes 60000,
                      Timer_fires 0]
                     (snd (fetchFileFromAgent example_platform ''/sdcard/dl'' ''a.jpg''
                             connected))))))
     1 = Some (Some ''/srv/uploads/_sdcard_dl_b.jpg'')"
proof -
  let ?evs = "[Agent_messages [file_message ''/other/b.png'' ''QUJD''], Time_passes 60000]"
  let ?f = "fetchFileFromAgent example_platform ''/sdcard/dl'' ''a.jpg'' connected"
  let ?st2 = "run example_platform ?evs (snd ?f)"
  let ?st3 = "run example_platform (?evs @ [Timer_fires 0]) (snd ?f)"
  let ?g = "fetchFileFromAgent example_platform ''/sdcard/dl'' ''b.jpg'' ?st3"
  let ?fd = "\<lparr>path = ''/sdcard/dl/b.jpg'', savePath = ''/srv/uploads/_sdcard_dl_b.jpg''\<rparr>"
  have 1: "wf connected"
    unfolding connected_def by (rule wf_run [OF wf_initial])
  have 2: "fst ?f = Inr 0"
    by (simp add: run_defs)
  then have f: "?f = (Inr 0, snd ?f)"
    by (metis prod.collapse)
  have 3: "\<forall>e \<in> set ?evs. \<not> file_arrives (filePath_of ''/sdcard/dl'' ''a.jpg'') e"
    by (simp add: file_message_def match_defs is_separator_def slash_def backslash_def)
  have later: "\<forall>e \<in> set (?evs @ [Timer_fires 0]).
      \<not> file_arrives (filePath_of ''/sdcard/dl'' ''a.jpg'') e"
    using 3 by simp
  have 4: "promises ?st2 0 = None" "crashed ?st2 = None" "clock connected + 60000 \<le> clock ?st2"
    by (simp_all add: run_defs match_defs)
  have s: "?st3 = step example_platform (Timer_fires 0) ?st2"
    by (simp add: run_def)
  have 5: "promises ?st3 0 = Some None"
    using fetch_times_out_after_deadline [OF 1 f 3, unfolded Let_def] 4 unfolding s by blast
  have 6: "fst ?g = Inr 1"
    by (simp add: run_defs match_defs)
  then have g: "?g = (Inr 1, snd ?g)"
    by (metis prod.collapse)
  have 7: "loose_match (filePath_of ''/sdcard/dl'' ''b.jpg'') (path ?fd)"
    by (simp add: match_defs is_separator_def slash_def backslash_def)
  have "promises (emit_file ?fd (snd ?g)) 1 = Some (Some (savePath ?fd))"
    using fetch_times_out_after_deadline [OF 1 f later, unfolded Let_def] 5 g 7 by blast
  then show ?thesis
    using 1 2 3 4(1) 5 by simp
qed

subsection \<open>C7: an empty listing\<close>



subsection \<open>C8: the path that a fetch asks for\<close>

text \<open>
  C8, as the claim states it, fails: a backslash is a path separator for the server (it is
  in the character class that the staged name and the directory are cleaned with), but a
  \<open>filename\<close> that starts with one is not used verbatim. It is joined to \<open>dir\<close>.
\<close>

theorem leading_backslash_is_not_verbatim:
  "is_separator backslash \<and>
   startsWith (backslash # ''x.txt'') [backslash] \<and>
   trace (snd (fetchFileFromAgent example_platform ''/sdcard/dl'' (backslash # ''x.txt'')
                 connected)) =
     trace connected @
     [Console (Requesting_file (''/sdcard/dl/'' @ backslash # ''x.txt'')),
      Send (Request_file (''/sdcard/dl/'' @ backslash # ''x.txt'')), Listen 0]"
  by (simp add: run_defs match_defs is_separator_def)

text \<open>
  C8, amended. The \<open>request_file\<close> command that a call of \<open>fetchFileFromAgent\<close> sends
  carries \<open>filename\<close> itself when \<open>filename\<close> starts with a forward slash, with
  \<open>storage\<close>, or with a letter and a colon; otherwise it carries \<open>dir\<close>, without its
  trailing slash or backslash if it has one, then one forward slash, then \<open>filename\<close>. A
  call sends no other command, and with an open socket it sends this one.
\<close>

theorem request_file_carries_filePath:
  assumes "fetchFileFromAgent pf dir filename st = (r, st')"
  shows "let P = (if (\<exists>rest. filename = CHR ''/'' # rest) \<or>
                     (\<exists>rest. filename = ''storage'' @ rest) \<or>
                     (\<exists>c rest. filename = c # CHR '':'' # rest \<and> is_ascii_letter c)
                  then filename
                  else (if dir \<noteq> [] \<and> (last dir = CHR ''/'' \<or> last dir = backslash)
                        then butlast dir else dir) @ ''/'' @ filename)
         in \<exists>acts. trace st' = trace st @ acts \<and>
              (\<forall>c. Send c \<in> set acts \<longrightarrow> c = Request_file P) \<and>
              (socket_open st \<longrightarrow>
                 (\<exists>p. r = Inr p \<and>
                    acts = [Console (Requesting_file P), Send (Request_file P), Listen p]))"
  using assms
  unfolding filePath_of_iff [symmetric] Let_def
  by (auto simp add: fetchFileFromAgent_def agentSocket_send_def console_log_def emit_action_def
      on_def setTimeout_def socket_open_def Let_def
      split: option.splits ready_state.splits if_splits)

theorem request_file_carries_filePath_witness:
  "socket_open connected \<and>
   trace (snd (fetchFileFromAgent example_platform (''/sdcard/dl'' @ [backslash]) ''a.jpg''
                 connected)) =
     trace connected @
     [Console (Requesting_file ''/sdcard/dl/a.jpg''), Send (Request_file ''/sdcard/dl/a.jpg''),
      Listen 0] \<and>
   trace (snd (fetchFileFromAgent example_platform ''/sdcard/dl'' ''storage/emulated/0/a.jpg''
                 connected)) =
     trace connected @
     [Console (Requesting_file ''storage/emulated/0/a.jpg''),
      Send (Request_file ''storage/emulated/0/a.jpg''), Listen 0]"
proof -
  let ?a = "fetchFileFromAgent example_platform (''/sdcard/dl'' @ [backslash]) ''a.jpg'' connected"
  let ?b = "fetchFileFromAgent example_platform ''/sdcard/dl'' ''storage/emulated/0/a.jpg''
              connected"
  have o: "socket_open connected"
    by (simp add: run_defs)
  have a: "fst ?a = Inr 0"
    by (simp add: run_defs)
  have b: "fst ?b = Inr 0"
    by (simp add: run_defs)
  have "?a = (fst ?a, snd ?a)"
    by simp
  from request_file_carries_filePath [OF this, unfolded Let_def]
  obtain p where "trace (snd ?a) =
      trace connected @ [Console (Requesting_file ''/sdcard/dl/a.jpg''),
        Send (Request_file ''/sdcard/dl/a.jpg''), Listen p]" and "fst ?a = Inr p"
    using o by (auto simp add: backslash_def)
  then have 1: "trace (snd ?a) =
      trace connected @ [Console (Requesting_file ''/sdcard/dl/a.jpg''),
        Send (Request_file ''/sdcard/dl/a.jpg''), Listen 0]"
    using a by simp
  have "?b = (fst ?b, snd ?b)"
    by simp
  from request_file_carries_filePath [OF this, unfolded Let_def]
  obtain q where "trace (snd ?b) =
      trace connected @ [Console (Requesting_file ''storage/emulated/0/a.jpg''),
        Send (Request_file ''storage/emulated/0/a.jpg''), Listen q]" and "fst ?b = Inr q"
    using o by auto
  then have 2: "trace (snd ?b) =
      trace connected @ [Console (Requesting_file ''storage/emulated/0/a.jpg''),
        Send (Request_file ''storage/emulated/0/a.jpg''), Listen 0]"
    using b by simp
  show ?thesis
    using o 1 2 by blast
qed

subsection \<open>C9: the staged file of a single-file view\<close>




subsection \<open>C10: the exact rule is redundant\<close>

text \<open>
  C10. The exact-equality rule of the loose matching is redundant: the predicate of the
  four rules is equal, for every requested and arrived path, to the predicate of the last
  three rules, because two normalised paths that are equal satisfy the rule "the arrived
  path ends with the requested path".
\<close>

theorem exact_rule_is_redundant:
  "loose_match P Q = match_without_exact P Q \<and>
   (backslashes_to_slashes P = backslashes_to_slashes Q \<longrightarrow>
      endsWith (backslashes_to_slashes Q) (backslashes_to_slashes P))"
  by (auto simp add: loose_match_def match_without_exact_def Let_def endsWith_refl)

theorem exact_rule_is_redundant_witness:
  "backslashes_to_slashes (''a'' @ [backslash] @ ''b'') = backslashes_to_slashes ''a/b'' \<and>
   endsWith (backslashes_to_slashes ''a/b'') (backslashes_to_slashes (''a'' @ [backslash] @ ''b'')) \<and>
   loose_match (''a'' @ [backslash] @ ''b'') ''a/b'' \<and>
   match_without_exact (''a'' @ [backslash] @ ''b'') ''a/b''"
  using exact_rule_is_redundant [of "''a'' @ [backslash] @ ''b''" "''a/b''"]
  by (simp add: backslashes_to_slashes_def backslash_def slash_def loose_match_def)

end
